theory Spec2Isabelle
  imports Main "HOL-Library.Sublist"
begin

section \<open>Python strings\<close>

text \<open>
  Text is a \<^typ>\<open>string\<close>; a character stands for a code point below 256, which covers
  HTTP header values (decoded as Latin-1) and the ASCII table names and CSV bodies of the
  API. \<open>is_space\<close> is Python's \<^verbatim>\<open>str.isspace\<close> (and the \<^verbatim>\<open>\s\<close> of \<^verbatim>\<open>re\<close>) on that range:
  tab, line feed, vertical tab, form feed, carriage return, the separators 0x1C to 0x1F,
  space, 0x85 and 0xA0.
\<close>

abbreviation NL :: char where
  "NL \<equiv> CHR 0x0A"

definition is_space :: "char \<Rightarrow> bool" where
  "is_space c =
     (let n = (of_char c :: nat)
      in (9 \<le> n \<and> n \<le> 13) \<or> (28 \<le> n \<and> n \<le> 32) \<or> n = 133 \<or> n = 160)"

text \<open>\<^verbatim>\<open>s.strip()\<close>: whitespace removed at both ends.\<close>

definition strip :: "string \<Rightarrow> string" where
  "strip s = rev (dropWhile is_space (rev (dropWhile is_space s)))"

text \<open>\<^verbatim>\<open>s.strip(chars)\<close>: the characters of \<open>chars\<close> removed at both ends.\<close>

definition strip_chars :: "string \<Rightarrow> string \<Rightarrow> string" where
  "strip_chars chars s =
     rev (dropWhile (\<lambda>c. c \<in> set chars) (rev (dropWhile (\<lambda>c. c \<in> set chars) s)))"

text \<open>\<^verbatim>\<open>s.split(sep)\<close> for a one-character separator: never the empty list.\<close>

fun split_on :: "char \<Rightarrow> string \<Rightarrow> string list" where
  "split_on sep [] = [[]]"
| "split_on sep (c # cs) =
     (if c = sep then [] # split_on sep cs
      else (case split_on sep cs of [] \<Rightarrow> [[c]] | l # ls \<Rightarrow> (c # l) # ls))"

text \<open>\<^verbatim>\<open>sep.join(parts)\<close>.\<close>

fun join :: "string \<Rightarrow> string list \<Rightarrow> string" where
  "join sep [] = []"
| "join sep [l] = l"
| "join sep (l # m # ls) = l @ sep @ join sep (m # ls)"

text \<open>\<^verbatim>\<open>p in s\<close> on strings: \<open>p\<close> occurs in \<open>s\<close> as a contiguous run.\<close>

fun contains :: "string \<Rightarrow> string \<Rightarrow> bool" where
  "contains p [] = (p = [])"
| "contains p (c # cs) = (prefix p (c # cs) \<or> contains p cs)"

section \<open>HTTP as seen by the fetch loops\<close>

text \<open>
  One \<^verbatim>\<open>requests.get\<close> followed by \<^verbatim>\<open>raise_for_status()\<close> either raises a
  \<^verbatim>\<open>RequestException\<close> (network failure or non-success status; the exception carries the
  status code and body when a response was received) or yields the body and the value of
  the \<^verbatim>\<open>Link\<close> header, absent when the header is. The server is a fixed function of the
  request: it answers the same request the same way.
\<close>

datatype 'b http_response =
    TransportError "(int \<times> string) option"
  | Response 'b "string option"

datatype level = INFO | WARNING | ERROR

text \<open>
  What one pass through a loop body does to the loop: go round again, leave the loop
  (\<^verbatim>\<open>break\<close>, or the loop condition turning false), or leave the function.
\<close>

datatype ('r, 's) control = Continue 's | Break 's | Return 'r

section \<open>CursorExtractor: \<^verbatim>\<open>_get_next_page_url\<close> (utils/wh\_api\_utils.py)\<close>

text \<open>
  \<^verbatim>\<open>re.search(r'<([^>]+)>\s*;\s*rel=["\']?next["\']?', link_header)\<close>.

  \<open>match_next_at s\<close> is the pattern matched at the very start of \<open>s\<close>, returning group 1.
  Every greedy piece of this pattern is followed by a character it cannot itself match
  (\<^verbatim>\<open>[^>]+\<close> by \<^verbatim>\<open>>\<close>, \<^verbatim>\<open>\s*\<close> by \<^verbatim>\<open>;\<close> or \<^verbatim>\<open>r\<close>, the optional quote by \<^verbatim>\<open>n\<close>), so
  backtracking never finds a second way to match and the longest run is the only candidate.
  The trailing optional quote always matches and does not change group 1.
  \<open>search_next\<close> tries the start positions from left to right, as \<^verbatim>\<open>re.search\<close> does.
\<close>

definition match_next_at :: "string \<Rightarrow> string option" where
  "match_next_at s =
     (case s of
        [] \<Rightarrow> None
      | c # r \<Rightarrow>
          if c \<noteq> CHR ''<'' then None
          else
            let url = takeWhile (\<lambda>c. c \<noteq> CHR ''>'') r;
                r1 = dropWhile (\<lambda>c. c \<noteq> CHR ''>'') r
            in if url = [] \<or> r1 = [] then None
               else
                 (case dropWhile is_space (tl r1) of
                    [] \<Rightarrow> None
                  | d # r3 \<Rightarrow>
                      if d \<noteq> CHR '';'' then None
                      else
                        let r4 = dropWhile is_space r3
                        in if \<not> prefix ''rel='' r4 then None
                           else
                             let r5 = drop 4 r4;
                                 r6 = (case r5 of
                                         [] \<Rightarrow> r5
                                       | q # r' \<Rightarrow>
                                           if q = CHR 0x22 \<or> q = CHR 0x27 then r' else r5)
                             in if prefix ''next'' r6 then Some url else None))"

fun search_next :: "string \<Rightarrow> string option" where
  "search_next [] = match_next_at []"
| "search_next (c # cs) =
     (case match_next_at (c # cs) of
        Some url \<Rightarrow> Some url
      | None \<Rightarrow> search_next cs)"

text \<open>
  The \<^verbatim>\<open>logger.debug\<close> lines of the function are diagnostics at a level the pipeline does
  not show and are left out.
\<close>

definition get_next_page_url :: "string option \<Rightarrow> string option" where
  "get_next_page_url link_header =
     (case link_header of
        None \<Rightarrow> None
      | Some h \<Rightarrow> if h = [] then None else search_next h)"

section \<open>Text-merge: \<^verbatim>\<open>download_table_csv\<close> (utils/wh\_api\_utils.py)\<close>

datatype csv_msg =
    StartingDownload string
  | DownloadingPage int string
  | PageRecords int int
  | NoMorePages
  | Downloaded int string string
  | DownloadError string
  | ResponseStatus int
  | ResponseBody string

record csv_state =
  current_url :: string
  page_count :: int
  total_records :: int
  csv_file :: string
  requests :: "string list"
  logs :: "(level \<times> csv_msg) list"

text \<open>
  The branch on \<^verbatim>\<open>page_count == 1\<close>: the text written to the file and \<^verbatim>\<open>lines_in_page\<close>.
\<close>

definition csv_page :: "int \<Rightarrow> string \<Rightarrow> string \<times> int" where
  "csv_page pc content =
     (if pc = 1 then (content, int (length (split_on NL (strip content))) - 1)
      else
        let lines = split_on NL (strip content)
        in if length lines > 1
           then (NL # join [NL] (drop 1 lines), int (length lines) - 1)
           else ([], 0))"

text \<open>One pass through the body of \<^verbatim>\<open>while current_url:\<close>.\<close>

definition csv_step ::
  "(string \<Rightarrow> string http_response) \<Rightarrow> csv_state \<Rightarrow> (csv_state \<times> (int \<times> string) option, csv_state) control"
where
  "csv_step srv st =
     (let pc = page_count st + 1;
          st1 = st\<lparr>page_count := pc,
                   requests := requests st @ [current_url st],
                   logs := logs st @ [(INFO, DownloadingPage pc (current_url st))]\<rparr>
      in case srv (current_url st) of
           TransportError info \<Rightarrow> Return (st1, info)
         | Response content link \<Rightarrow>
             let written = fst (csv_page pc content);
                 lines_in_page = snd (csv_page pc content);
                 st2 = st1\<lparr>csv_file := csv_file st1 @ written,
                           total_records := total_records st1 + lines_in_page,
                           logs := logs st1 @ [(INFO, PageRecords pc lines_in_page)]\<rparr>
             in (case get_next_page_url link of
                   None \<Rightarrow> Break (st2\<lparr>logs := logs st2 @ [(INFO, NoMorePages)]\<rparr>)
                 | Some next_url \<Rightarrow>
                     if next_url = []
                     then Break (st2\<lparr>current_url := next_url,
                                     logs := logs st2 @ [(INFO, NoMorePages)]\<rparr>)
                     else Continue (st2\<lparr>current_url := next_url\<rparr>)))"

text \<open>
  The loop. A server whose link headers never end keeps it running: the result is
  \<open>None\<close> then. \<open>Inl\<close> is the state at the point where the request raised.
\<close>

partial_function (option) csv_loop ::
  "(string \<Rightarrow> string http_response) \<Rightarrow> csv_state
     \<Rightarrow> (csv_state \<times> (int \<times> string) option + csv_state) option"
where
  "csv_loop srv st =
     (if current_url st = [] then Some (Inr st)
      else case csv_step srv st of
             Continue st' \<Rightarrow> csv_loop srv st'
           | Break st' \<Rightarrow> Some (Inr st')
           | Return e \<Rightarrow> Some (Inl e))"

text \<open>\<^verbatim>\<open>os.path.join(a, b)\<close> on POSIX, for two components.\<close>

definition path_join :: "string \<Rightarrow> string \<Rightarrow> string" where
  "path_join a b =
     (if prefix ''/'' b then b
      else if a = [] \<or> last a = CHR ''/'' then a @ b
      else a @ ''/'' @ b)"

definition base_url :: "string \<Rightarrow> string" where
  "base_url table_name =
     ''https://crm.welcomehomesoftware.com/api/exports/community/all/table/'' @ table_name"

definition csv_file_path :: "string \<Rightarrow> string \<Rightarrow> string" where
  "csv_file_path temp_dir table_name = path_join temp_dir (table_name @ ''.csv'')"

record csv_result =
  returned :: "string option"
  files :: "string \<Rightarrow> string option"
  sent :: "string list"
  logged :: "(level \<times> csv_msg) list"

text \<open>
  The file is opened with mode \<^verbatim>\<open>'w'\<close>: whatever it held is dropped, and what the loop
  wrote is there when the \<^verbatim>\<open>with\<close> block is left, also when it is left by the exception.
  The file system is a map from paths to contents; opening the file in the temporary
  directory is taken to succeed.
\<close>

definition download_table_csv ::
  "(string \<Rightarrow> string http_response) \<Rightarrow> string \<Rightarrow> string \<Rightarrow> (string \<Rightarrow> string option)
     \<Rightarrow> csv_result option"
where
  "download_table_csv srv table_name temp_dir fs =
     (let path = csv_file_path temp_dir table_name;
          init = \<lparr>current_url = base_url table_name, page_count = 0, total_records = 0,
                  csv_file = [], requests = [],
                  logs = [(INFO, StartingDownload table_name)]\<rparr>
      in case csv_loop srv init of
           None \<Rightarrow> None
         | Some (Inr st) \<Rightarrow>
             Some \<lparr>returned = Some path, files = fs(path \<mapsto> csv_file st), sent = requests st,
                   logged = logs st @ [(INFO, Downloaded (total_records st) table_name path)]\<rparr>
         | Some (Inl (st, info)) \<Rightarrow>
             Some \<lparr>returned = None, files = fs(path \<mapsto> csv_file st), sent = requests st,
                   logged = logs st @ [(ERROR, DownloadError table_name)] @
                     (case info of
                        None \<Rightarrow> []
                      | Some (code, text) \<Rightarrow>
                          [(ERROR, ResponseStatus code), (ERROR, ResponseBody text)])\<rparr>)"

section \<open>Structured-merge: \<^verbatim>\<open>fetch_all_ids_from_api\<close> (welcome\_home\_export/main.py)\<close>

subsection \<open>\<^verbatim>\<open>to_snake_case\<close>\<close>

text \<open>
  In a \<^verbatim>\<open>str\<close> pattern \<^verbatim>\<open>[A-Z]\<close>, \<^verbatim>\<open>[a-z]\<close> and \<^verbatim>\<open>[0-9]\<close> are the ASCII ranges and \<^verbatim>\<open>.\<close> is
  any character but the line feed. \<^verbatim>\<open>str.lower\<close> also lowers the Latin-1 capitals.
\<close>

definition is_upper :: "char \<Rightarrow> bool" where
  "is_upper c = (let n = (of_char c :: nat) in 65 \<le> n \<and> n \<le> 90)"

definition is_lower :: "char \<Rightarrow> bool" where
  "is_lower c = (let n = (of_char c :: nat) in 97 \<le> n \<and> n \<le> 122)"

definition is_digit :: "char \<Rightarrow> bool" where
  "is_digit c = (let n = (of_char c :: nat) in 48 \<le> n \<and> n \<le> 57)"

definition lower_char :: "char \<Rightarrow> char" where
  "lower_char c =
     (let n = (of_char c :: nat)
      in if (65 \<le> n \<and> n \<le> 90) \<or> (192 \<le> n \<and> n \<le> 222 \<and> n \<noteq> 215)
         then char_of (n + 32) else c)"

definition lower :: "string \<Rightarrow> string" where
  "lower s = map lower_char s"

text \<open>
  \<^verbatim>\<open>re.sub('(.)([A-Z][a-z]+)', r'\1_\2', name)\<close>: the matches are taken from left to right
  and do not overlap; after a match the scan goes on behind the run of lower-case letters.
\<close>

function sub_word :: "string \<Rightarrow> string" where
  "sub_word (c # d # e # r) =
     (if c \<noteq> NL \<and> is_upper d \<and> is_lower e
      then c # CHR ''_'' # d # e # takeWhile is_lower r @ sub_word (dropWhile is_lower r)
      else c # sub_word (d # e # r))"
| "sub_word [c, d] = [c, d]"
| "sub_word [c] = [c]"
| "sub_word [] = []"
  by pat_completeness auto
termination
  by (relation "measure length") (auto intro: le_imp_less_Suc le_SucI length_dropWhile_le)

text \<open>\<^verbatim>\<open>re.sub('([a-z0-9])([A-Z])', r'\1_\2', s1)\<close>.\<close>

fun sub_hump :: "string \<Rightarrow> string" where
  "sub_hump (c # d # r) =
     (if (is_lower c \<or> is_digit c) \<and> is_upper d
      then c # CHR ''_'' # d # sub_hump r
      else c # sub_hump (d # r))"
| "sub_hump [c] = [c]"
| "sub_hump [] = []"

definition to_snake_case :: "string \<Rightarrow> string" where
  "to_snake_case name = lower (sub_hump (sub_word name))"

text \<open>\<^verbatim>\<open>TABLES_TO_PROCESS\<close>, the table names the pipeline is run for.\<close>

definition tables_to_process :: "string list" where
  "tables_to_process =
     [''Organizations'', ''Referrers'', ''Influencers'', ''Units'', ''HousingContracts'',
      ''DepositTransactions'', ''MarketingTouchpoints'', ''ServiceAgreements'', ''Traits'',
      ''Prospects'', ''Residents'', ''Activities'']"

subsection \<open>One page\<close>

text \<open>
  \<^verbatim>\<open>pd.read_csv\<close> belongs to pandas and is a parameter \<open>read_csv\<close> of the model: it raises
  (\<open>None\<close>) or gives a frame, the columns in order, each with its cells; a null cell
  (NaN) is \<open>None\<close>.
\<close>

type_synonym 'v dataframe = "(string \<times> 'v option list) list"

datatype export_msg =
    StartingFetch string
  | EmptyResponse string
  | FoundIdColumn string
  | FallbackIdColumn string string
  | PageFetched int int
  | CsvParseError string
  | FetchError string
  | FinishedFetch string int

definition expected_id_column :: "string \<Rightarrow> string" where
  "expected_id_column table_name = to_snake_case table_name @ ''.id''"

text \<open>
  The choice of \<^verbatim>\<open>id_column\<close> with its log line; \<open>None\<close> is the \<^verbatim>\<open>IndexError\<close> of
  \<^verbatim>\<open>df.columns[0]\<close> on a frame without columns.
\<close>

definition resolve_id_column ::
  "string \<Rightarrow> string list \<Rightarrow> (string \<times> level \<times> export_msg) option"
where
  "resolve_id_column table_name columns =
     (let expected = expected_id_column table_name
      in if expected \<in> set columns then Some (expected, INFO, FoundIdColumn expected)
         else (case columns of
                 [] \<Rightarrow> None
               | first # _ \<Rightarrow> Some (first, WARNING, FallbackIdColumn expected first)))"

primrec dropna :: "'v option list \<Rightarrow> 'v list" where
  "dropna [] = []"
| "dropna (c # cs) = (case c of None \<Rightarrow> dropna cs | Some v \<Rightarrow> v # dropna cs)"

text \<open>
  The inner \<^verbatim>\<open>try\<close> up to \<^verbatim>\<open>ids = df[id_column].dropna().tolist()\<close>: \<open>None\<close> when
  anything in it raises.
\<close>

definition page_ids ::
  "(string \<Rightarrow> 'v dataframe option) \<Rightarrow> string \<Rightarrow> string
     \<Rightarrow> ('v list \<times> level \<times> export_msg) option"
where
  "page_ids read_csv table_name response_text =
     (case read_csv response_text of
        None \<Rightarrow> None
      | Some df \<Rightarrow>
          (case resolve_id_column table_name (map fst df) of
             None \<Rightarrow> None
           | Some (id_column, entry) \<Rightarrow>
               (case map_of df id_column of
                  None \<Rightarrow> None
                | Some cells \<Rightarrow> Some (dropna cells, entry))))"

text \<open>
  \<^verbatim>\<open>if 'Link' in response.headers and 'rel="next"' in response.headers['Link']:\<close>
  \<^verbatim>\<open>url = response.headers['Link'].split(';')[0].strip('<>')\<close>, else \<^verbatim>\<open>url = None\<close>.
\<close>

definition export_next_url :: "string option \<Rightarrow> string option" where
  \<open>export_next_url link =
     (case link of
        None \<Rightarrow> None
      | Some h \<Rightarrow>
          if contains ''rel="next"'' h
          then Some (strip_chars ''<>'' (case split_on CHR '';'' h of [] \<Rightarrow> [] | p # _ \<Rightarrow> p))
          else None)\<close>

subsection \<open>The loop\<close>

record 'v export_state =
  e_url :: "string option"
  all_ids :: "'v list"
  e_page_number :: int
  e_requests :: "string list"
  e_logs :: "(level \<times> export_msg) list"

record 'v export_result =
  ids :: "'v list"
  e_sent :: "string list"
  e_logged :: "(level \<times> export_msg) list"

definition export_step ::
  "(string \<Rightarrow> 'v dataframe option) \<Rightarrow> string \<Rightarrow> (string \<Rightarrow> string http_response)
     \<Rightarrow> string \<Rightarrow> 'v export_state \<Rightarrow> ('v export_result, 'v export_state) control"
where
  "export_step read_csv table_name srv u st =
     (let sent = e_requests st @ [u]
      in case srv u of
           TransportError info \<Rightarrow>
             Return \<lparr>ids = [], e_sent = sent,
                     e_logged = e_logs st @ [(ERROR, FetchError table_name)]\<rparr>
         | Response response_text link \<Rightarrow>
             if strip response_text = []
             then Return \<lparr>ids = [], e_sent = sent,
                          e_logged = e_logs st @ [(ERROR, EmptyResponse table_name)]\<rparr>
             else
               (case page_ids read_csv table_name response_text of
                  None \<Rightarrow>
                    Return \<lparr>ids = [], e_sent = sent,
                            e_logged = e_logs st @ [(ERROR, CsvParseError table_name)]\<rparr>
                | Some (page, entry) \<Rightarrow>
                    Continue
                      (st\<lparr>e_url := export_next_url link,
                          all_ids := all_ids st @ page,
                          e_page_number := e_page_number st + 1,
                          e_requests := sent,
                          e_logs := e_logs st @
                            [entry, (INFO, PageFetched (e_page_number st) (int (length page)))]\<rparr>)))"

text \<open>\<^verbatim>\<open>while url:\<close> runs as long as \<open>url\<close> is a non-empty string.\<close>

partial_function (option) export_loop ::
  "(string \<Rightarrow> 'v dataframe option) \<Rightarrow> string \<Rightarrow> (string \<Rightarrow> string http_response)
     \<Rightarrow> 'v export_state \<Rightarrow> ('v export_result + 'v export_state) option"
where
  "export_loop read_csv table_name srv st =
     (case e_url st of
        None \<Rightarrow> Some (Inr st)
      | Some u \<Rightarrow>
          if u = [] then Some (Inr st)
          else (case export_step read_csv table_name srv u st of
                  Continue st' \<Rightarrow> export_loop read_csv table_name srv st'
                | Break st' \<Rightarrow> Some (Inr st')
                | Return r \<Rightarrow> Some (Inl r)))"

text \<open>\<^verbatim>\<open>str(n)\<close> for an integer, as the f-string writes \<^verbatim>\<open>records_per_page\<close>.\<close>

fun digits :: "nat \<Rightarrow> string" where
  "digits n = (if n < 10 then [char_of (48 + n)] else digits (n div 10) @ [char_of (48 + n mod 10)])"

definition str_int :: "int \<Rightarrow> string" where
  "str_int i = (if i < 0 then CHR ''-'' # digits (nat (- i)) else digits (nat i))"

definition export_base_url :: string where
  "export_base_url = ''https://crm.welcomehomesoftware.com/api/exports/community/all/table''"

definition export_url :: "string \<Rightarrow> int \<Rightarrow> string" where
  "export_url table_name records_per_page =
     export_base_url @ ''/'' @ table_name @ ''?limit='' @ str_int records_per_page"

definition fetch_all_ids_from_api ::
  "(string \<Rightarrow> 'v dataframe option) \<Rightarrow> (string \<Rightarrow> string http_response) \<Rightarrow> string \<Rightarrow> int
     \<Rightarrow> 'v export_result option"
where
  "fetch_all_ids_from_api read_csv srv table_name records_per_page =
     (let init = \<lparr>e_url = Some (export_url table_name records_per_page), all_ids = [],
                  e_page_number = 1, e_requests = [],
                  e_logs = [(INFO, StartingFetch table_name)]\<rparr>
      in case export_loop read_csv table_name srv init of
           None \<Rightarrow> None
         | Some (Inl r) \<Rightarrow> Some r
         | Some (Inr st) \<Rightarrow>
             Some \<lparr>ids = all_ids st, e_sent = e_requests st,
                   e_logged = e_logs st @
                     [(INFO, FinishedFetch table_name (int (length (all_ids st))))]\<rparr>)"

section \<open>Prospect IDs: \<^verbatim>\<open>fetch_prospect_ids_from_activities\<close> (welcome\_home/main.py)\<close>

subsection \<open>JSON values\<close>

text \<open>
  What \<^verbatim>\<open>response.json()\<close> returns. A dict lists its items, each key once. Numbers are
  integers: record ids are; a JSON real would be a float, which is not modelled.
\<close>

datatype json =
    JNull
  | JBool bool
  | JNum int
  | JStr string
  | JArr "json list"
  | JObj "(string \<times> json) list"

text \<open>Truth value of an object in a condition.\<close>

fun truthy :: "json \<Rightarrow> bool" where
  "truthy JNull = False"
| "truthy (JBool b) = b"
| "truthy (JNum n) = (n \<noteq> 0)"
| "truthy (JStr s) = (s \<noteq> [])"
| "truthy (JArr xs) = (xs \<noteq> [])"
| "truthy (JObj kvs) = (kvs \<noteq> [])"

text \<open>Lists and dicts cannot be members of a set: \<^verbatim>\<open>set.add\<close> raises \<^verbatim>\<open>TypeError\<close>.\<close>

fun hashable :: "json \<Rightarrow> bool" where
  "hashable (JArr xs) = False"
| "hashable (JObj kvs) = False"
| "hashable v = True"

text \<open>
  Equality of set members: \<^verbatim>\<open>True == 1\<close> and \<^verbatim>\<open>False == 0\<close>, otherwise values of
  different types differ. A set keeps the member it has when an equal one is added.
\<close>

fun py_key :: "json \<Rightarrow> json" where
  "py_key (JBool b) = JNum (if b then 1 else 0)"
| "py_key v = v"

definition set_add :: "json set \<Rightarrow> json \<Rightarrow> json set" where
  "set_add S v = (if \<exists>w \<in> S. py_key w = py_key v then S else insert v S)"

text \<open>\<^verbatim>\<open>d.get(key)\<close>: the value, or \<^verbatim>\<open>None\<close> for a missing key.\<close>

definition dict_get :: "(string \<times> json) list \<Rightarrow> string \<Rightarrow> json" where
  "dict_get d k = (case map_of d k of None \<Rightarrow> JNull | Some v \<Rightarrow> v)"

subsection \<open>One page\<close>

text \<open>
  The \<^verbatim>\<open>for activity in activities\<close> loop over the elements of a list. The flag is
  \<open>False\<close> when an element raised: \<^verbatim>\<open>AttributeError\<close> for an element that is no dict,
  \<^verbatim>\<open>TypeError\<close> for a record id that cannot be hashed. What was added before stays added.
\<close>

fun collect :: "json list \<Rightarrow> json set \<Rightarrow> json set \<times> bool" where
  "collect [] S = (S, True)"
| "collect (JObj activity # rest) S =
     (if dict_get activity ''record_type'' = JStr ''Prospect''
         \<and> truthy (dict_get activity ''record_id'')
      then if hashable (dict_get activity ''record_id'')
           then collect rest (set_add S (dict_get activity ''record_id''))
           else (S, False)
      else collect rest S)"
| "collect (other # rest) S = (S, False)"

text \<open>
  \<^verbatim>\<open>re.search(r'<([^>]+)>;\s*rel="next"', link_header)\<close>: no whitespace before the
  semicolon here, and the double quotes are required.
\<close>

definition match_rel_next_at :: "string \<Rightarrow> string option" where
  \<open>match_rel_next_at s =
     (case s of
        [] \<Rightarrow> None
      | c # r \<Rightarrow>
          if c \<noteq> CHR ''<'' then None
          else
            let url = takeWhile (\<lambda>c. c \<noteq> CHR ''>'') r;
                r1 = dropWhile (\<lambda>c. c \<noteq> CHR ''>'') r
            in if url = [] \<or> r1 = [] then None
               else
                 (case tl r1 of
                    [] \<Rightarrow> None
                  | d # r3 \<Rightarrow>
                      if d \<noteq> CHR '';'' then None
                      else if prefix ''rel="next"'' (dropWhile is_space r3) then Some url
                      else None))\<close>

fun search_rel_next :: "string \<Rightarrow> string option" where
  "search_rel_next [] = match_rel_next_at []"
| "search_rel_next (c # cs) =
     (case match_rel_next_at (c # cs) of
        Some url \<Rightarrow> Some url
      | None \<Rightarrow> search_rel_next cs)"

definition prospect_next_url :: "string option \<Rightarrow> string option" where
  \<open>prospect_next_url link_header =
     (case link_header of
        None \<Rightarrow> None
      | Some h \<Rightarrow>
          if h \<noteq> [] \<and> contains ''rel="next"'' h then search_rel_next h else None)\<close>

datatype prospect_msg =
    StartingExtraction
  | NoMoreActivities int
  | ProcessingActivities int int
  | FoundSoFar int
  | ActivitiesFetchError int
  | ActivitiesUnexpectedError int
  | CompletedExtraction int

record prospect_state =
  p_url :: "string option"
  p_params :: "int option"
  prospect_ids :: "json set"
  p_page_number :: int
  p_requests :: "(string \<times> int option) list"
  p_logs :: "(level \<times> prospect_msg) list"

text \<open>
  One pass through the body of \<^verbatim>\<open>while url:\<close>. The request is the URL with the
  \<^verbatim>\<open>limit\<close> parameter, or without parameters; the body is \<open>None\<close> when it is not JSON
  (\<^verbatim>\<open>response.json()\<close> raises a \<^verbatim>\<open>RequestException\<close> then). Both \<^verbatim>\<open>except\<close> clauses log
  and \<^verbatim>\<open>break\<close>. \<^verbatim>\<open>len\<close> of a number raises; iterating a string or a dict yields strings,
  which have no \<^verbatim>\<open>get\<close>.
\<close>

definition prospect_step ::
  "(string \<times> int option \<Rightarrow> json option http_response) \<Rightarrow> string \<Rightarrow> prospect_state
     \<Rightarrow> (unit, prospect_state) control"
where
  "prospect_step srv u st =
     (let page = p_page_number st;
          st1 = st\<lparr>p_requests := p_requests st @ [(u, p_params st)]\<rparr>;
          failed = Break (st1\<lparr>p_logs := p_logs st1 @ [(ERROR, ActivitiesFetchError page)]\<rparr>)
      in case srv (u, p_params st) of
           TransportError info \<Rightarrow> failed
         | Response None link \<Rightarrow> failed
         | Response (Some activities) link \<Rightarrow>
             if \<not> truthy activities
             then Break (st1\<lparr>p_logs := p_logs st1 @ [(INFO, NoMoreActivities page)]\<rparr>)
             else
               (case activities of
                  JArr items \<Rightarrow>
                    let st2 = st1\<lparr>p_logs := p_logs st1 @
                                [(INFO, ProcessingActivities (int (length items)) page)]\<rparr>;
                        found = collect items (prospect_ids st)
                    in if \<not> snd found
                       then Break (st2\<lparr>prospect_ids := fst found,
                                       p_logs := p_logs st2 @
                                         [(ERROR, ActivitiesUnexpectedError page)]\<rparr>)
                       else
                         let st3 = st2\<lparr>prospect_ids := fst found,
                                       p_logs := p_logs st2 @
                                         [(INFO, FoundSoFar (int (card (fst found))))]\<rparr>
                         in (case prospect_next_url link of
                               Some next_url \<Rightarrow>
                                 Continue (st3\<lparr>p_url := Some next_url, p_params := None,
                                              p_page_number := page + 1\<rparr>)
                             | None \<Rightarrow> Continue (st3\<lparr>p_url := None\<rparr>))
                | JStr s \<Rightarrow>
                    Break (st1\<lparr>p_logs := p_logs st1 @
                             [(INFO, ProcessingActivities (int (length s)) page),
                              (ERROR, ActivitiesUnexpectedError page)]\<rparr>)
                | JObj kvs \<Rightarrow>
                    Break (st1\<lparr>p_logs := p_logs st1 @
                             [(INFO, ProcessingActivities (int (length kvs)) page),
                              (ERROR, ActivitiesUnexpectedError page)]\<rparr>)
                | _ \<Rightarrow>
                    Break (st1\<lparr>p_logs := p_logs st1 @
                             [(ERROR, ActivitiesUnexpectedError page)]\<rparr>)))"

partial_function (option) prospect_loop ::
  "(string \<times> int option \<Rightarrow> json option http_response) \<Rightarrow> prospect_state
     \<Rightarrow> prospect_state option"
where
  "prospect_loop srv st =
     (case p_url st of
        None \<Rightarrow> Some st
      | Some u \<Rightarrow>
          if u = [] then Some st
          else (case prospect_step srv u st of
                  Continue st' \<Rightarrow> prospect_loop srv st'
                | Break st' \<Rightarrow> Some st'
                | Return r \<Rightarrow> Some st))"

record prospect_result =
  prospects :: "json set"
  p_sent :: "(string \<times> int option) list"
  p_logged :: "(level \<times> prospect_msg) list"

text \<open>
  \<^verbatim>\<open>return list(prospect_ids)\<close>. The result records the set the loop has built;
  \<open>may_return\<close> below says which lists the \<^verbatim>\<open>return\<close> can hand back for it.
\<close>

definition activities_url :: string where
  "activities_url = ''https://crm.welcomehomesoftware.com/api'' @ ''/activities''"

definition fetch_prospect_ids_from_activities ::
  "(string \<times> int option \<Rightarrow> json option http_response) \<Rightarrow> int \<Rightarrow> prospect_result option"
where
  "fetch_prospect_ids_from_activities srv records_per_page =
     (let init = \<lparr>p_url = Some activities_url,
                  p_params = Some records_per_page, prospect_ids = {}, p_page_number = 1,
                  p_requests = [], p_logs = [(INFO, StartingExtraction)]\<rparr>
      in case prospect_loop srv init of
           None \<Rightarrow> None
         | Some st \<Rightarrow>
             Some \<lparr>prospects = prospect_ids st, p_sent = p_requests st,
                   p_logged = p_logs st @
                     [(INFO, CompletedExtraction (int (card (prospect_ids st))))]\<rparr>)"

text \<open>
  \<^verbatim>\<open>list(s)\<close> of a set lists every member once. Python does not say in which order: CPython
  walks its hash table, so the order follows the hash values and the history of insertions,
  and the hash of a string changes with the hash seed of the process. \<open>may_return r xs\<close>:
  \<open>xs\<close> is such a listing of the set of \<open>r\<close>, a list the function can return.
\<close>

definition may_return :: "prospect_result \<Rightarrow> json list \<Rightarrow> bool" where
  "may_return r xs = (set xs = prospects r \<and> distinct xs)"

section \<open>Vocabulary of the properties\<close>

subsection \<open>Link headers\<close>

text \<open>
  \<open>next_link_at s u\<close>: the text \<open>s\<close> begins with a link to \<open>u\<close> marked as the next page,
  in the shape \<^verbatim>\<open><URL>; rel="next"\<close>, with optional whitespace around the semicolon and
  a double quote, a single quote or no quote before \<^verbatim>\<open>next\<close>.
  \<open>leftmost_next_link h u\<close>: the first such link in the header \<open>h\<close> is the one to \<open>u\<close>.
\<close>

definition next_link_at :: "string \<Rightarrow> string \<Rightarrow> bool" where
  "next_link_at s u =
     (\<exists>ws1 ws2 q rest.
        s = ''<'' @ u @ ''>'' @ ws1 @ '';'' @ ws2 @ ''rel='' @ q @ ''next'' @ rest
        \<and> u \<noteq> [] \<and> CHR ''>'' \<notin> set u
        \<and> (\<forall>c \<in> set ws1. is_space c) \<and> (\<forall>c \<in> set ws2. is_space c)
        \<and> (q = [] \<or> q = [CHR 0x22] \<or> q = [CHR 0x27]))"


text \<open>
  The header as the API documents it, \<^verbatim>\<open><URL>; rel="next"\<close>, for a URL without angle
  brackets and semicolons.
\<close>

definition next_link :: "string \<Rightarrow> string" where
  \<open>next_link u = ''<'' @ u @ ''>; rel="next"''\<close>

definition url_ok :: "string \<Rightarrow> bool" where
  "url_ok u = (u \<noteq> [] \<and> CHR ''<'' \<notin> set u \<and> CHR ''>'' \<notin> set u \<and> CHR '';'' \<notin> set u)"

text \<open>
  \<open>link_chain srv u b ps\<close>: a well-formed chain of pages. The request for \<open>u\<close> is answered
  with the body \<open>b\<close>; each page but the last names the URL of the next one in its link
  header, and the last page has no link header. \<open>ps\<close> lists the pages after the first,
  each with its URL.
\<close>

fun link_chain :: "(string \<Rightarrow> 'b http_response) \<Rightarrow> string \<Rightarrow> 'b \<Rightarrow> (string \<times> 'b) list \<Rightarrow> bool" where
  "link_chain srv u b [] = (srv u = Response b None)"
| "link_chain srv u b ((u', b') # ps) =
     (url_ok u' \<and> srv u = Response b (Some (next_link u')) \<and> link_chain srv u' b' ps)"

subsection \<open>Text-merge\<close>

text \<open>
  The lines of a body, its record count (lines minus the header, floored at zero), and
  what a page after the first adds to the file: a line feed and the lines after the first,
  or nothing when there is no line after the first.
\<close>

definition body_lines :: "string \<Rightarrow> string list" where
  "body_lines content = split_on NL (strip content)"

definition record_count :: "string \<Rightarrow> int" where
  "record_count content = max 0 (int (length (body_lines content)) - 1)"

definition later_part :: "string \<Rightarrow> string" where
  "later_part content =
     (if length (body_lines content) > 1 then NL # join [NL] (tl (body_lines content)) else [])"

subsection \<open>Structured-merge\<close>

text \<open>
  The values a page adds, and a page that is processed without error: its body is not
  blank and the inner \<^verbatim>\<open>try\<close> does not raise.
\<close>

definition page_values :: "(string \<Rightarrow> 'v dataframe option) \<Rightarrow> string \<Rightarrow> string \<Rightarrow> 'v list" where
  "page_values read_csv table_name body =
     (case page_ids read_csv table_name body of None \<Rightarrow> [] | Some (page, entry) \<Rightarrow> page)"

definition page_ok :: "(string \<Rightarrow> 'v dataframe option) \<Rightarrow> string \<Rightarrow> string \<Rightarrow> bool" where
  "page_ok read_csv table_name body =
     (strip body \<noteq> [] \<and> page_ids read_csv table_name body \<noteq> None)"

subsection \<open>Example inputs\<close>

definition cursor_url :: string where
  "cursor_url = ''https://x/y?cursor=abc''"



text \<open>Two CSV pages, the second reached through the link header of the first.\<close>

definition two_pages :: "string \<Rightarrow> string http_response" where
  "two_pages u =
     (if u = base_url ''T''
      then Response ''id,name\<newline>1,a\<newline>2,b'' (Some (next_link cursor_url))
      else if u = cursor_url then Response ''id,name\<newline>3,c'' None
      else TransportError None)"

text \<open>
  The loop of \<^verbatim>\<open>download_table_csv\<close> after a first page of two records, answered with
  a page that holds a header line only.
\<close>

definition header_only_state :: csv_state where
  "header_only_state =
     \<lparr>current_url = cursor_url, page_count = 1, total_records = 2,
      csv_file = ''id,name\<newline>1,a\<newline>2,b'', requests = [base_url ''T''], logs = []\<rparr>"

definition header_only_srv :: "string \<Rightarrow> string http_response" where
  "header_only_srv u = Response ''id,name'' None"

definition header_only_done :: csv_state where
  "header_only_done =
     header_only_state
       \<lparr>page_count := 2,
        requests := [base_url ''T'', cursor_url],
        logs := [(INFO, DownloadingPage 2 cursor_url), (INFO, PageRecords 2 0),
                 (INFO, NoMorePages)]\<rparr>"

text \<open>
  A stand-in for \<^verbatim>\<open>pd.read_csv\<close> on two bodies with the single column \<^verbatim>\<open>other_id\<close>, and the
  two pages served for the table \<^verbatim>\<open>DepositTransactions\<close>.
\<close>

definition example_read_csv :: "string \<Rightarrow> int dataframe option" where
  "example_read_csv text =
     (if text = ''other_id\<newline>1\<newline>2'' then Some [(''other_id'', [Some 1, Some 2])]
      else if text = ''other_id\<newline>3'' then Some [(''other_id'', [Some 3])]
      else None)"

definition export_two_pages :: "string \<Rightarrow> string http_response" where
  "export_two_pages u =
     (if u = export_url ''DepositTransactions'' 10000
      then Response ''other_id\<newline>1\<newline>2'' (Some (next_link cursor_url))
      else if u = cursor_url then Response ''other_id\<newline>3'' None
      else TransportError None)"

definition export_start :: "int export_state" where
  "export_start =
     \<lparr>e_url = Some (export_url ''DepositTransactions'' 10000), all_ids = [], e_page_number = 1,
      e_requests = [], e_logs = [(INFO, StartingFetch ''DepositTransactions'')]\<rparr>"

text \<open>Activities of record type \<^verbatim>\<open>Prospect\<close>, and servers for the activities endpoint.\<close>

definition prospect_activity :: "json \<Rightarrow> json" where
  "prospect_activity record_id = JObj [(''record_type'', JStr ''Prospect''), (''record_id'', record_id)]"

definition one_page :: "json \<Rightarrow> string \<times> int option \<Rightarrow> json option http_response" where
  "one_page activities q =
     (if q = (activities_url, Some 10000) then Response (Some activities) None
      else TransportError None)"

definition error_on_second :: "string \<times> int option \<Rightarrow> json option http_response" where
  "error_on_second q =
     (if q = (activities_url, Some 10000)
      then Response (Some (JArr [prospect_activity (JNum 7)])) (Some (next_link cursor_url))
      else TransportError None)"

text \<open>
  \<open>contributed srv x\<close>: some page of activities that the server can answer with holds an
  activity of record type \<^verbatim>\<open>Prospect\<close> whose record id is \<open>x\<close>, and \<open>x\<close> is truthy.
\<close>

definition contributed :: "(string \<times> int option \<Rightarrow> json option http_response) \<Rightarrow> json \<Rightarrow> bool" where
  "contributed srv x =
     (\<exists>q items link activity.
        srv q = Response (Some (JArr items)) link \<and> JObj activity \<in> set items
        \<and> dict_get activity ''record_type'' = JStr ''Prospect''
        \<and> dict_get activity ''record_id'' = x \<and> truthy x)"

text \<open>
  A page with one prospect to collect among activities that must be passed over, the loop
  state at the start of \<^verbatim>\<open>fetch_prospect_ids_from_activities\<close>, and servers that answer
  with a blank body.
\<close>

definition mixed_page :: json where
  "mixed_page =
     JArr [prospect_activity (JNum 7), prospect_activity (JNum 0), prospect_activity JNull,
           JObj [(''record_type'', JStr ''Prospect'')],
           JObj [(''record_type'', JStr ''Resident''), (''record_id'', JNum 9)]]"

definition prospect_start :: prospect_state where
  "prospect_start =
     \<lparr>p_url = Some activities_url, p_params = Some 10000, prospect_ids = {}, p_page_number = 1,
      p_requests = [], p_logs = [(INFO, StartingExtraction)]\<rparr>"

definition export_blank_second :: "string \<Rightarrow> string http_response" where
  "export_blank_second u =
     (if u = export_url ''DepositTransactions'' 10000
      then Response ''other_id\<newline>1\<newline>2'' (Some (next_link cursor_url))
      else if u = cursor_url then Response [] None
      else TransportError None)"

definition blank_srv :: "string \<Rightarrow> string http_response" where
  "blank_srv u = Response [] (Some (next_link cursor_url))"

text \<open>Where a finished loop ended: its last state, and the requests it has sent.\<close>

definition csv_end :: "csv_state \<times> (int \<times> string) option + csv_state \<Rightarrow> csv_state" where
  "csv_end res = (case res of Inl (st, info) \<Rightarrow> st | Inr st \<Rightarrow> st)"

definition export_end :: "'v export_result + 'v export_state \<Rightarrow> string list" where
  "export_end res = (case res of Inl r \<Rightarrow> e_sent r | Inr st \<Rightarrow> e_requests st)"

text \<open>Servers that differ from the examples only at a URL that is never requested.\<close>

definition two_pages_elsewhere :: "string \<Rightarrow> string http_response" where
  "two_pages_elsewhere u =
     (if u = ''https://x/z'' then Response ''id,name\<newline>9,z'' None else two_pages u)"

definition one_page_elsewhere :: "string \<times> int option \<Rightarrow> json option http_response" where
  "one_page_elsewhere q =
     (if q = (''https://x/z'', None) then Response None None else one_page mixed_page q)"

definition export_two_pages_elsewhere :: "string \<Rightarrow> string http_response" where
  "export_two_pages_elsewhere u =
     (if u = ''https://x/z'' then Response ''other_id\<newline>9'' None else export_two_pages u)"

text \<open>
  A page of \<^verbatim>\<open>DepositTransactions\<close> that has the expected id column as its second column,
  with a null cell, its frame, and a server that answers with this page.
\<close>

definition id_column_page :: string where
  "id_column_page = ''other_id,deposit_transactions.id\<newline>1,5\<newline>2,\<newline>3,6''"

definition id_column_read_csv :: "string \<Rightarrow> int dataframe option" where
  "id_column_read_csv body =
     (if body = id_column_page
      then Some [(''other_id'', [Some 1, Some 2, Some 3]),
                 (''deposit_transactions.id'', [Some 5, None, Some 6])]
      else example_read_csv body)"

definition id_column_srv :: "string \<Rightarrow> string http_response" where
  "id_column_srv u = Response id_column_page None"

text \<open>A page of activities whose two prospects have strings as record ids.\<close>

definition two_string_ids :: json where
  "two_string_ids = JArr [prospect_activity (JStr ''a''), prospect_activity (JStr ''b'')]"

section \<open>Lemmas\<close>

subsection \<open>Strings\<close>

lemma split_on_not_Nil [simp]: "split_on sep s \<noteq> []"
  by (induction s) (auto split: list.splits)

lemma length_split_on_pos: "1 \<le> length (split_on sep s)"
  using split_on_not_Nil [of sep s] by (cases "split_on sep s") auto

lemma split_on_first:
  "sep \<notin> set xs \<Longrightarrow> split_on sep (xs @ sep # ys) = xs # split_on sep ys"
  by (induction xs) (auto split: list.splits)

lemma contains_iff: "contains p s \<longleftrightarrow> (\<exists>a b. s = a @ p @ b)"
proof (induction s)
  case Nil
  then show ?case by auto
next
  case (Cons c cs)
  have "(\<exists>a b. c # cs = a @ p @ b) \<longleftrightarrow> prefix p (c # cs) \<or> (\<exists>a b. cs = a @ p @ b)"
  proof
    assume "\<exists>a b. c # cs = a @ p @ b"
    then obtain a b where ab: "c # cs = a @ p @ b" by blast
    show "prefix p (c # cs) \<or> (\<exists>a b. cs = a @ p @ b)"
    proof (cases a)
      case Nil
      with ab show ?thesis by (auto simp: prefix_def)
    next
      case (Cons x xs)
      with ab have "cs = xs @ p @ b" by simp
      then show ?thesis by blast
    qed
  next
    assume "prefix p (c # cs) \<or> (\<exists>a b. cs = a @ p @ b)"
    then show "\<exists>a b. c # cs = a @ p @ b"
    proof
      assume "prefix p (c # cs)"
      then obtain b where "c # cs = [] @ p @ b" by (auto simp: prefix_def)
      then show ?thesis by blast
    next
      assume "\<exists>a b. cs = a @ p @ b"
      then obtain a b where "c # cs = (c # a) @ p @ b" by auto
      then show ?thesis by blast
    qed
  qed
  with Cons show ?case by simp
qed

lemma strip_chars_brackets:
  assumes "u \<noteq> []" and "CHR ''<'' \<notin> set u" and "CHR ''>'' \<notin> set u"
  shows "strip_chars ''<>'' (''<'' @ u @ ''>'') = u"
proof -
  obtain x xs where u: "u = x # xs" using assms(1) by (cases u) auto
  obtain y ys where r: "rev u = y # ys" using assms(1) by (cases "rev u") auto
  have x: "x \<noteq> CHR ''<''" "x \<noteq> CHR ''>''" using assms(2,3) u by auto
  have "y \<in> set u" using r by (metis list.set_intros(1) set_rev)
  then have y: "y \<noteq> CHR ''<''" "y \<noteq> CHR ''>''" using assms(2,3) by auto
  have "dropWhile (\<lambda>c. c \<in> set ''<>'') (''<'' @ u @ ''>'') = u @ ''>''"
    using x by (simp add: u)
  moreover have "dropWhile (\<lambda>c. c \<in> set ''<>'') (rev (u @ ''>'')) = rev u"
    using y by (simp add: r)
  ultimately show ?thesis by (simp add: strip_chars_def)
qed

lemma not_space_semicolon [simp]: "\<not> is_space CHR '';''"
  by (simp add: is_space_def)

lemma not_space_r [simp]: "\<not> is_space CHR ''r''"
  by (simp add: is_space_def)

lemma takeWhile_stop:
  "\<forall>x \<in> set xs. P x \<Longrightarrow> \<not> P y \<Longrightarrow> takeWhile P (xs @ y # ys) = xs"
  by (induction xs) auto

lemma dropWhile_stop:
  "\<forall>x \<in> set xs. P x \<Longrightarrow> \<not> P y \<Longrightarrow> dropWhile P (xs @ y # ys) = y # ys"
  by (induction xs) auto

subsection \<open>The pattern of \<^verbatim>\<open>_get_next_page_url\<close>\<close>

lemma match_next_at_complete:
  assumes "next_link_at s u"
  shows "match_next_at s = Some u"
proof -
  from assms obtain ws1 ws2 q rest where
    s: "s = ''<'' @ u @ ''>'' @ ws1 @ '';'' @ ws2 @ ''rel='' @ q @ ''next'' @ rest"
    and u: "u \<noteq> []" "CHR ''>'' \<notin> set u"
    and ws: "\<forall>c \<in> set ws1. is_space c" "\<forall>c \<in> set ws2. is_space c"
    and q: "q = [] \<or> q = [CHR 0x22] \<or> q = [CHR 0x27]"
    unfolding next_link_at_def by blast
  have u': "\<forall>x \<in> set u. x \<noteq> CHR ''>''" using u by auto
  have t: "\<And>X. takeWhile (\<lambda>c. c \<noteq> CHR ''>'') (u @ CHR ''>'' # X) = u"
    using u' by (rule takeWhile_stop) simp
  have d: "\<And>X. dropWhile (\<lambda>c. c \<noteq> CHR ''>'') (u @ CHR ''>'' # X) = CHR ''>'' # X"
    using u' by (rule dropWhile_stop) simp
  have d1: "\<And>X. dropWhile is_space (ws1 @ CHR '';'' # X) = CHR '';'' # X"
    using ws(1) by (rule dropWhile_stop) simp
  have d2: "\<And>X. dropWhile is_space (ws2 @ CHR ''r'' # X) = CHR ''r'' # X"
    using ws(2) by (rule dropWhile_stop) simp
  show ?thesis
    using q u(1) by (auto simp: match_next_at_def s t d d1 d2 Let_def)
qed





lemma next_link_at_next_link:
  "u \<noteq> [] \<Longrightarrow> CHR ''>'' \<notin> set u \<Longrightarrow> next_link_at (next_link u) u"
  unfolding next_link_at_def next_link_def
  by (rule exI [of _ "[]"], rule exI [of _ "'' ''"], rule exI [of _ "[CHR 0x22]"],
      rule exI [of _ "[CHR 0x22]"]) (simp add: is_space_def)

lemma get_next_page_url_next_link:
  assumes "url_ok u"
  shows "get_next_page_url (Some (next_link u)) = Some u"
proof -
  have "match_next_at (next_link u) = Some u"
    using assms by (intro match_next_at_complete next_link_at_next_link) (auto simp: url_ok_def)
  moreover have "next_link u = CHR ''<'' # tl (next_link u)"
    by (simp add: next_link_def)
  ultimately have "search_next (next_link u) = Some u"
    by (metis option.simps(5) search_next.simps(2))
  then show ?thesis
    by (simp add: get_next_page_url_def next_link_def)
qed


lemma export_next_url_next_link:
  assumes "url_ok u"
  shows "export_next_url (Some (next_link u)) = Some u"
proof -
  have c: \<open>contains ''rel="next"'' (next_link u)\<close>
    unfolding contains_iff next_link_def
    by (rule exI [of _ "''<'' @ u @ ''>; ''"], rule exI [of _ "[]"]) simp
  have "next_link u = (''<'' @ u @ ''>'') @ CHR '';'' # '' rel='' @ [CHR 0x22] @ ''next'' @ [CHR 0x22]"
    by (simp add: next_link_def)
  moreover have "CHR '';'' \<notin> set (''<'' @ u @ ''>'')"
    using assms by (simp add: url_ok_def)
  ultimately have "split_on CHR '';'' (next_link u)
      = (''<'' @ u @ ''>'') # split_on CHR '';'' ('' rel='' @ [CHR 0x22] @ ''next'' @ [CHR 0x22])"
    using split_on_first by metis
  then show ?thesis
    using c assms strip_chars_brackets [of u] by (simp add: export_next_url_def url_ok_def)
qed

subsection \<open>The text-merge loop along a chain\<close>

lemma csv_page_count: "snd (csv_page pc content) = record_count content"
  using length_split_on_pos [of NL "strip content"]
  by (auto simp: csv_page_def body_lines_def record_count_def Let_def)

lemma csv_page_later: "pc \<noteq> 1 \<Longrightarrow> fst (csv_page pc content) = later_part content"
  by (simp add: csv_page_def later_part_def body_lines_def Let_def drop_Suc)

lemma csv_page_first: "fst (csv_page 1 content) = content"
  by (simp add: csv_page_def)

lemma csv_loop_later:
  assumes "link_chain srv (current_url st) b ps" and "current_url st \<noteq> []"
    and "1 \<le> page_count st"
  shows "\<exists>st'. csv_loop srv st = Some (Inr st')
     \<and> csv_file st' = csv_file st @ concat (map later_part (b # map snd ps))
     \<and> total_records st' = total_records st + sum_list (map record_count (b # map snd ps))
     \<and> requests st' = requests st @ current_url st # map fst ps
     \<and> page_count st' = page_count st + 1 + int (length ps)"
  using assms
proof (induction ps arbitrary: st b)
  case Nil
  then have srv: "srv (current_url st) = Response b None" by simp
  from Nil have pc: "page_count st + 1 \<noteq> 1" by simp
  show ?case
    using Nil(2) pc
    by (subst csv_loop.simps)
      (simp add: csv_step_def srv Let_def get_next_page_url_def csv_page_count csv_page_later)
next
  case (Cons p ps)
  obtain u' b' where p: "p = (u', b')" by (cases p)
  from Cons.prems p have ok: "url_ok u'"
    and srv: "srv (current_url st) = Response b (Some (next_link u'))"
    and chain: "link_chain srv u' b' ps" by simp_all
  from Cons.prems have pc: "page_count st + 1 \<noteq> 1" by simp
  from ok have ne: "u' \<noteq> []" by (simp add: url_ok_def)
  define st2 where "st2 = st\<lparr>page_count := page_count st + 1,
      requests := requests st @ [current_url st],
      logs := logs st @ [(INFO, DownloadingPage (page_count st + 1) (current_url st)),
         (INFO, PageRecords (page_count st + 1) (record_count b))],
      csv_file := csv_file st @ later_part b,
      total_records := total_records st + record_count b,
      current_url := u'\<rparr>"
  have step: "csv_step srv st = Continue st2"
    using pc ne
    by (simp add: csv_step_def srv Let_def get_next_page_url_next_link [OF ok]
        csv_page_count csv_page_later st2_def)
  have unfold: "csv_loop srv st = csv_loop srv st2"
    using Cons.prems(2) by (subst csv_loop.simps) (simp add: step)
  have "\<exists>st'. csv_loop srv st2 = Some (Inr st')
     \<and> csv_file st' = csv_file st2 @ concat (map later_part (b' # map snd ps))
     \<and> total_records st' = total_records st2 + sum_list (map record_count (b' # map snd ps))
     \<and> requests st' = requests st2 @ current_url st2 # map fst ps
     \<and> page_count st' = page_count st2 + 1 + int (length ps)"
    using chain ne Cons.prems(3) by (intro Cons.IH) (simp_all add: st2_def)
  then show ?case
    unfolding unfold p by (auto simp: st2_def)
qed

lemma csv_loop_first:
  assumes "link_chain srv (current_url st) b ps" and "current_url st \<noteq> []"
    and "page_count st = 0"
  shows "\<exists>st'. csv_loop srv st = Some (Inr st')
     \<and> csv_file st' = csv_file st @ b @ concat (map later_part (map snd ps))
     \<and> total_records st' = total_records st + sum_list (map record_count (b # map snd ps))
     \<and> requests st' = requests st @ current_url st # map fst ps
     \<and> page_count st' = 1 + int (length ps)"
proof (cases ps)
  case Nil
  with assms have srv: "srv (current_url st) = Response b None" by simp
  show ?thesis
    using assms(2,3) Nil
    by (subst csv_loop.simps)
      (simp add: csv_step_def srv Let_def get_next_page_url_def csv_page_count csv_page_first)
next
  case (Cons p ps')
  obtain u' b' where p: "p = (u', b')" by (cases p)
  from assms Cons p have ok: "url_ok u'"
    and srv: "srv (current_url st) = Response b (Some (next_link u'))"
    and chain: "link_chain srv u' b' ps'" by simp_all
  from ok have ne: "u' \<noteq> []" by (simp add: url_ok_def)
  define st2 where "st2 = st\<lparr>page_count := 1,
      requests := requests st @ [current_url st],
      logs := logs st @ [(INFO, DownloadingPage 1 (current_url st)),
         (INFO, PageRecords 1 (record_count b))],
      csv_file := csv_file st @ b,
      total_records := total_records st + record_count b,
      current_url := u'\<rparr>"
  have step: "csv_step srv st = Continue st2"
    using ne assms(3)
    by (simp add: csv_step_def srv Let_def get_next_page_url_next_link [OF ok]
        csv_page_count csv_page_first st2_def)
  have unfold: "csv_loop srv st = csv_loop srv st2"
    using assms(2) by (subst csv_loop.simps) (simp add: step)
  have "\<exists>st'. csv_loop srv st2 = Some (Inr st')
     \<and> csv_file st' = csv_file st2 @ concat (map later_part (b' # map snd ps'))
     \<and> total_records st' = total_records st2 + sum_list (map record_count (b' # map snd ps'))
     \<and> requests st' = requests st2 @ current_url st2 # map fst ps'
     \<and> page_count st' = page_count st2 + 1 + int (length ps')"
    using chain ne by (intro csv_loop_later) (simp_all add: st2_def)
  then show ?thesis
    unfolding unfold p Cons by (auto simp: st2_def)
qed

subsection \<open>The structured-merge loop along a chain\<close>

lemma export_loop_chain:
  assumes "link_chain srv u b ps" and "e_url st = Some u" and "u \<noteq> []"
    and "\<forall>body \<in> set (b # map snd ps). page_ok read_csv table_name body"
  shows "\<exists>st'. export_loop read_csv table_name srv st = Some (Inr st')
     \<and> all_ids st' = all_ids st @ concat (map (page_values read_csv table_name) (b # map snd ps))
     \<and> e_requests st' = e_requests st @ u # map fst ps
     \<and> e_page_number st' = e_page_number st + 1 + int (length ps)"
  using assms
proof (induction ps arbitrary: st u b)
  case Nil
  then have srv: "srv u = Response b None" by simp
  from Nil obtain page entry where pg: "page_ids read_csv table_name b = Some (page, entry)"
    and ne: "strip b \<noteq> []"
    by (auto simp: page_ok_def)
  have pv: "page_values read_csv table_name b = page"
    by (simp add: page_values_def pg)
  define st2 where "st2 = st\<lparr>e_url := None, all_ids := all_ids st @ page,
      e_page_number := e_page_number st + 1, e_requests := e_requests st @ [u],
      e_logs := e_logs st @ [entry, (INFO, PageFetched (e_page_number st) (int (length page)))]\<rparr>"
  have step: "export_step read_csv table_name srv u st = Continue st2"
    using ne by (simp add: export_step_def srv pg export_next_url_def st2_def)
  have "export_loop read_csv table_name srv st = export_loop read_csv table_name srv st2"
    using Nil.prems(2,3) by (subst export_loop.simps) (simp add: step)
  also have "\<dots> = Some (Inr st2)"
    by (subst export_loop.simps) (simp add: st2_def)
  finally show ?case
    using pv by (simp add: st2_def)
next
  case (Cons p ps)
  obtain u' b' where p: "p = (u', b')" by (cases p)
  from Cons.prems p have ok: "url_ok u'" and srv: "srv u = Response b (Some (next_link u'))"
    and chain: "link_chain srv u' b' ps" by simp_all
  from ok have ne': "u' \<noteq> []" by (simp add: url_ok_def)
  from Cons.prems obtain page entry where pg: "page_ids read_csv table_name b = Some (page, entry)"
    and ne: "strip b \<noteq> []"
    by (auto simp: page_ok_def)
  have pv: "page_values read_csv table_name b = page"
    by (simp add: page_values_def pg)
  define st2 where "st2 = st\<lparr>e_url := Some u', all_ids := all_ids st @ page,
      e_page_number := e_page_number st + 1, e_requests := e_requests st @ [u],
      e_logs := e_logs st @ [entry, (INFO, PageFetched (e_page_number st) (int (length page)))]\<rparr>"
  have step: "export_step read_csv table_name srv u st = Continue st2"
    using ne by (simp add: export_step_def srv pg export_next_url_next_link [OF ok] st2_def)
  have unfold: "export_loop read_csv table_name srv st = export_loop read_csv table_name srv st2"
    using Cons.prems(2,3) by (subst export_loop.simps) (simp add: step)
  have "\<exists>st'. export_loop read_csv table_name srv st2 = Some (Inr st')
     \<and> all_ids st' = all_ids st2 @ concat (map (page_values read_csv table_name) (b' # map snd ps))
     \<and> e_requests st' = e_requests st2 @ u' # map fst ps
     \<and> e_page_number st' = e_page_number st2 + 1 + int (length ps)"
    using chain ne' Cons.prems(4) p by (intro Cons.IH) (simp_all add: st2_def)
  then show ?case
    unfolding unfold p using pv by (auto simp: st2_def)
qed

lemma split_on_append:
  "split_on c (a @ c # b) = split_on c a @ split_on c b"
proof (induction a)
  case Nil
  then show ?case by simp
next
  case (Cons x xs)
  obtain l ls where "split_on c xs = l # ls"
    using split_on_not_Nil [of c xs] by (cases "split_on c xs") auto
  with Cons show ?case by simp
qed

lemma split_on_no_sep: "c \<notin> set s \<Longrightarrow> split_on c s = [s]"
  by (induction s) auto

lemma split_on_parts: "l \<in> set (split_on c s) \<Longrightarrow> c \<notin> set l"
proof (induction s arbitrary: l)
  case Nil
  then show ?case by simp
next
  case (Cons x xs)
  obtain m ms where m: "split_on c xs = m # ms"
    using split_on_not_Nil [of c xs] by (cases "split_on c xs") auto
  show ?case
  proof (cases "x = c")
    case True
    with Cons show ?thesis by auto
  next
    case False
    with Cons.prems m have "l = x # m \<or> l \<in> set ms" by simp
    then show ?thesis
    proof
      assume "l = x # m"
      moreover have "c \<notin> set m" using Cons.IH [of m] m by simp
      ultimately show ?thesis using False by simp
    next
      assume "l \<in> set ms"
      then show ?thesis using Cons.IH [of l] m by simp
    qed
  qed
qed

lemma split_on_join:
  "ls \<noteq> [] \<Longrightarrow> \<forall>l \<in> set ls. c \<notin> set l \<Longrightarrow> split_on c (join [c] ls) = ls"
proof (induction "[c]" ls rule: join.induct)
  case 1
  then show ?case by simp
next
  case (2 l)
  then show ?case by (simp add: split_on_no_sep)
next
  case (3 l m ls)
  then have "split_on c (join [c] (m # ls)) = m # ls" by simp
  moreover have "split_on c l = [l]" using 3 by (simp add: split_on_no_sep)
  ultimately show ?case
    using split_on_append [of c l "join [c] (m # ls)"] by simp
qed

lemma split_on_later_part:
  "split_on NL (x @ later_part b) = split_on NL x @ tl (body_lines b)"
proof (cases "length (body_lines b) > 1")
  case True
  then have ne: "tl (body_lines b) \<noteq> []" by (cases "body_lines b") auto
  have "\<forall>l \<in> set (tl (body_lines b)). NL \<notin> set l"
    using split_on_parts [of _ NL "strip b"]
    by (metis body_lines_def list.sel(2) list.set_sel(2))
  with ne have "split_on NL (join [NL] (tl (body_lines b))) = tl (body_lines b)"
    by (rule split_on_join)
  with True show ?thesis
    using split_on_append [of NL x "join [NL] (tl (body_lines b))"]
    by (simp add: later_part_def)
next
  case False
  then have "tl (body_lines b) = []" by (cases "body_lines b") auto
  with False show ?thesis by (simp add: later_part_def)
qed

lemma split_on_merged:
  "split_on NL (x @ concat (map later_part bs))
     = split_on NL x @ concat (map (\<lambda>b. tl (body_lines b)) bs)"
proof (induction bs arbitrary: x)
  case Nil
  then show ?case by simp
next
  case (Cons b bs)
  have "split_on NL ((x @ later_part b) @ concat (map later_part bs))
      = split_on NL (x @ later_part b) @ concat (map (\<lambda>b. tl (body_lines b)) bs)"
    by (rule Cons.IH)
  then show ?case by (simp add: split_on_later_part)
qed

lemma dropna_filter: "map Some (dropna cells) = filter (\<lambda>c. c \<noteq> None) cells"
  by (induction cells) (auto split: option.splits)

lemma fetch_all_ids_chain:
  assumes "link_chain srv (export_url table_name n) b ps"
    and "\<forall>body \<in> set (b # map snd ps). page_ok read_csv table_name body"
  shows "\<exists>r. fetch_all_ids_from_api read_csv srv table_name n = Some r
     \<and> ids r = concat (map (page_values read_csv table_name) (b # map snd ps))
     \<and> e_sent r = export_url table_name n # map fst ps
     \<and> last (e_logged r) = (INFO, FinishedFetch table_name (int (length (ids r))))"
proof -
  define init :: "'a export_state" where "init = \<lparr>e_url = Some (export_url table_name n), all_ids = [],
      e_page_number = 1, e_requests = [], e_logs = [(INFO, StartingFetch table_name)]\<rparr>"
  have "\<exists>st'. export_loop read_csv table_name srv init = Some (Inr st')
     \<and> all_ids st' = all_ids init @ concat (map (page_values read_csv table_name) (b # map snd ps))
     \<and> e_requests st' = e_requests init @ export_url table_name n # map fst ps
     \<and> e_page_number st' = e_page_number init + 1 + int (length ps)"
    using assms by (intro export_loop_chain) (simp_all add: init_def export_url_def)
  then obtain st' where "export_loop read_csv table_name srv init = Some (Inr st')"
    and "all_ids st' = concat (map (page_values read_csv table_name) (b # map snd ps))"
    and "e_requests st' = export_url table_name n # map fst ps"
    by (auto simp: init_def)
  then show ?thesis
    by (simp add: fetch_all_ids_from_api_def Let_def init_def [symmetric])
qed

lemma download_table_csv_chain:
  assumes "link_chain srv (base_url table_name) b ps"
  shows "\<exists>r. download_table_csv srv table_name temp_dir fs = Some r
     \<and> returned r = Some (csv_file_path temp_dir table_name)
     \<and> files r (csv_file_path temp_dir table_name)
         = Some (b @ concat (map later_part (map snd ps)))
     \<and> sent r = base_url table_name # map fst ps
     \<and> last (logged r) = (INFO, Downloaded (sum_list (map record_count (b # map snd ps)))
         table_name (csv_file_path temp_dir table_name))"
proof -
  define init where "init = \<lparr>current_url = base_url table_name, page_count = 0,
      total_records = 0, csv_file = [], requests = [],
      logs = [(INFO, StartingDownload table_name)]\<rparr>"
  have "\<exists>st'. csv_loop srv init = Some (Inr st')
     \<and> csv_file st' = csv_file init @ b @ concat (map later_part (map snd ps))
     \<and> total_records st' = total_records init + sum_list (map record_count (b # map snd ps))
     \<and> requests st' = requests init @ current_url init # map fst ps
     \<and> page_count st' = 1 + int (length ps)"
    using assms by (intro csv_loop_first) (simp_all add: init_def base_url_def)
  then obtain st' where "csv_loop srv init = Some (Inr st')"
    and "csv_file st' = b @ concat (map later_part (map snd ps))"
    and "total_records st' = sum_list (map record_count (b # map snd ps))"
    and "requests st' = base_url table_name # map fst ps"
    by (auto simp: init_def)
  then show ?thesis
    by (simp add: download_table_csv_def Let_def init_def [symmetric])
qed

lemma two_pages_chain:
  "link_chain two_pages (base_url ''T'') ''id,name\<newline>1,a\<newline>2,b'' [(cursor_url, ''id,name\<newline>3,c'')]"
  by (simp add: two_pages_def url_ok_def cursor_url_def base_url_def)

lemma export_two_pages_chain:
  "link_chain export_two_pages (export_url ''DepositTransactions'' 10000) ''other_id\<newline>1\<newline>2''
     [(cursor_url, ''other_id\<newline>3'')]"
  by (simp add: export_two_pages_def url_ok_def cursor_url_def export_url_def export_base_url_def)

lemma snake_deposit: "to_snake_case ''DepositTransactions'' = ''deposit_transactions''"
  by code_simp

lemma example_page_values:
  "page_values example_read_csv ''DepositTransactions'' ''other_id\<newline>1\<newline>2'' = [1, 2]"
  "page_values example_read_csv ''DepositTransactions'' ''other_id\<newline>3'' = [3]"
  by (simp_all add: page_values_def page_ids_def example_read_csv_def resolve_id_column_def
      expected_id_column_def snake_deposit)

lemma example_page_ok:
  "page_ok example_read_csv ''DepositTransactions'' ''other_id\<newline>1\<newline>2''"
  "page_ok example_read_csv ''DepositTransactions'' ''other_id\<newline>3''"
  by (simp_all add: page_ok_def page_ids_def example_read_csv_def resolve_id_column_def
      expected_id_column_def snake_deposit strip_def is_space_def)

lemma page_values_cells:
  assumes "page_ok read_csv table_name body"
  shows "\<exists>df column cells. read_csv body = Some df \<and> (column, cells) \<in> set df
     \<and> map Some (page_values read_csv table_name body) = filter (\<lambda>c. c \<noteq> None) cells"
proof -
  from assms obtain df where df: "read_csv body = Some df"
    by (auto simp: page_ok_def page_ids_def split: option.splits)
  with assms obtain column entry where c: "resolve_id_column table_name (map fst df) = Some (column, entry)"
    by (auto simp: page_ok_def page_ids_def split: option.splits)
  with assms df obtain cells where cells: "map_of df column = Some cells"
    by (auto simp: page_ok_def page_ids_def split: option.splits)
  have "page_values read_csv table_name body = dropna cells"
    by (simp add: page_values_def page_ids_def df c cells)
  moreover have "(column, cells) \<in> set df"
    using cells by (rule map_of_SomeD)
  ultimately show ?thesis
    using df dropna_filter [of cells] by auto
qed

lemma export_loop_transport_error:
  assumes "e_url st = Some u" and "u \<noteq> []" and "srv u = TransportError info"
  shows "export_loop read_csv table_name srv st
     = Some (Inl \<lparr>ids = [], e_sent = e_requests st @ [u],
                  e_logged = e_logs st @ [(ERROR, FetchError table_name)]\<rparr>)"
  using assms by (subst export_loop.simps) (simp add: export_step_def)

lemma collect_sound:
  "x \<in> fst (collect items S) \<Longrightarrow>
     x \<in> S \<or> (\<exists>activity. JObj activity \<in> set items
        \<and> dict_get activity ''record_type'' = JStr ''Prospect''
        \<and> dict_get activity ''record_id'' = x \<and> truthy x)"
proof (induction items S rule: collect.induct)
  case (1 S)
  then show ?case by simp
next
  case (2 activity rest S)
  then show ?case
    by (auto simp: set_add_def split: if_splits)
qed simp_all

lemma prospect_step_sound:
  assumes "prospect_step srv u st = Continue st' \<or> prospect_step srv u st = Break st'"
    and "x \<in> prospect_ids st'"
  shows "x \<in> prospect_ids st \<or> contributed srv x"
proof (cases "srv (u, p_params st)")
  case (TransportError info)
  with assms show ?thesis by (auto simp: prospect_step_def Let_def)
next
  case (Response body link)
  show ?thesis
  proof (cases body)
    case None
    with Response assms show ?thesis by (auto simp: prospect_step_def Let_def)
  next
    case (Some activities)
    show ?thesis
    proof (cases activities)
      case (JArr items)
      with Response Some assms have "x \<in> prospect_ids st \<or> x \<in> fst (collect items (prospect_ids st))"
        by (auto simp: prospect_step_def Let_def split: if_splits option.splits)
      then show ?thesis
        using collect_sound [of x items "prospect_ids st"] Response Some JArr
        unfolding contributed_def by blast
    qed (use Response Some assms in \<open>auto simp: prospect_step_def Let_def split: if_splits\<close>)
  qed
qed

lemma prospect_loop_sound:
  assumes "prospect_loop srv st = Some st'"
  shows "\<forall>x \<in> prospect_ids st'. x \<in> prospect_ids st \<or> contributed srv x"
proof (rule prospect_loop.raw_induct
    [where P = "\<lambda>srv st st'. \<forall>x \<in> prospect_ids st'. x \<in> prospect_ids st \<or> contributed srv x",
     OF _ assms])
  fix loop srv st st'
  assume IH: "\<And>srv st y. loop srv st = Some y \<Longrightarrow>
      \<forall>x \<in> prospect_ids y. x \<in> prospect_ids st \<or> contributed srv x"
    and body: "(case p_url st of
        None \<Rightarrow> Some st
      | Some u \<Rightarrow>
          if u = [] then Some st
          else (case prospect_step srv u st of
                  Continue st' \<Rightarrow> loop srv st'
                | Break st' \<Rightarrow> Some st'
                | Return r \<Rightarrow> Some st)) = Some st'"
  show "\<forall>x \<in> prospect_ids st'. x \<in> prospect_ids st \<or> contributed srv x"
  proof (cases "p_url st")
    case None
    with body show ?thesis by simp
  next
    case (Some u)
    show ?thesis
    proof (cases "u = []")
      case True
      with Some body show ?thesis by simp
    next
      case False
      show ?thesis
      proof (cases "prospect_step srv u st")
        case (Continue st2)
        with Some False body have "loop srv st2 = Some st'" by simp
        then have "\<forall>x \<in> prospect_ids st'. x \<in> prospect_ids st2 \<or> contributed srv x"
          by (rule IH)
        then show ?thesis
          using prospect_step_sound [of srv u st st2] Continue by blast
      next
        case (Break st2)
        with Some False body have "st' = st2" by simp
        then show ?thesis
          using prospect_step_sound [of srv u st st2] Break by blast
      next
        case (Return r)
        with Some False body show ?thesis by simp
      qed
    qed
  qed
qed

lemma prospect_loop_empty_page:
  assumes "p_url st = Some u" and "u \<noteq> []"
    and "srv (u, p_params st) = Response (Some activities) link" and "\<not> truthy activities"
  shows "prospect_loop srv st
     = Some (st\<lparr>p_requests := p_requests st @ [(u, p_params st)],
               p_logs := p_logs st @ [(INFO, NoMoreActivities (p_page_number st))]\<rparr>)"
  using assms by (subst prospect_loop.simps) (simp add: prospect_step_def Let_def)

lemma export_loop_blank_page:
  assumes "e_url st = Some u" and "u \<noteq> []" and "srv u = Response body link"
    and "strip body = []"
  shows "export_loop read_csv table_name srv st
     = Some (Inl \<lparr>ids = [], e_sent = e_requests st @ [u],
                  e_logged = e_logs st @ [(ERROR, EmptyResponse table_name)]\<rparr>)"
  using assms by (subst export_loop.simps) (simp add: export_step_def)

lemma csv_step_blank_page:
  assumes "srv (current_url st) = Response content link" and "strip content = []"
    and "1 \<le> page_count st"
  shows "\<exists>st'. (csv_step srv st = Continue st' \<or> csv_step srv st = Break st')
     \<and> csv_file st' = csv_file st \<and> total_records st' = total_records st
     \<and> (\<forall>next_url. get_next_page_url link = Some next_url \<and> next_url \<noteq> [] \<longrightarrow>
          csv_step srv st = Continue st' \<and> current_url st' = next_url)"
proof -
  from assms(3) have pc: "page_count st + 1 \<noteq> 1" by simp
  have "csv_page (page_count st + 1) content = ([], 0)"
    using pc assms(2) by (simp add: csv_page_def Let_def)
  then show ?thesis
    using assms(1)
    by (cases "get_next_page_url link") (auto simp: csv_step_def Let_def)
qed

lemma fetch_prospect_ids_empty_first_page:
  assumes "srv (activities_url, Some n) = Response (Some activities) link"
    and "\<not> truthy activities"
  shows "\<exists>r. fetch_prospect_ids_from_activities srv n = Some r \<and> prospects r = {}
     \<and> (\<forall>entry \<in> set (p_logged r). fst entry = INFO)"
proof -
  define init where "init = \<lparr>p_url = Some activities_url, p_params = Some n,
      prospect_ids = {}, p_page_number = 1, p_requests = [],
      p_logs = [(INFO, StartingExtraction)]\<rparr>"
  have "prospect_loop srv init
     = Some (init\<lparr>p_requests := p_requests init @ [(activities_url, p_params init)],
               p_logs := p_logs init @ [(INFO, NoMoreActivities (p_page_number init))]\<rparr>)"
    using assms by (intro prospect_loop_empty_page) (simp_all add: init_def activities_url_def)
  then show ?thesis
    by (simp add: fetch_prospect_ids_from_activities_def Let_def init_def [symmetric])
      (simp add: init_def)
qed

lemma collect_skip:
  "dict_get activity ''record_type'' \<noteq> JStr ''Prospect''
     \<or> \<not> truthy (dict_get activity ''record_id'')
   \<Longrightarrow> collect (JObj activity # rest) S = collect rest S"
  by auto

lemma contributed_truthy: "contributed srv x \<Longrightarrow> truthy x"
  by (auto simp: contributed_def)

lemma fetch_prospect_ids_sound:
  assumes "fetch_prospect_ids_from_activities srv n = Some r"
  shows "\<forall>x \<in> prospects r. contributed srv x"
proof -
  define init where "init = \<lparr>p_url = Some activities_url, p_params = Some n,
      prospect_ids = {}, p_page_number = 1, p_requests = [],
      p_logs = [(INFO, StartingExtraction)]\<rparr>"
  from assms obtain st' where loop: "prospect_loop srv init = Some st'"
    and r: "prospects r = prospect_ids st'"
    by (auto simp: fetch_prospect_ids_from_activities_def Let_def init_def [symmetric]
        split: option.splits)
  from prospect_loop_sound [OF loop] have "\<forall>x \<in> prospect_ids st'. contributed srv x"
    by (simp add: init_def)
  with r show ?thesis by simp
qed

subsection \<open>Replaying a fetch\<close>

lemma csv_step_same:
  "srv' (current_url st) = srv (current_url st) \<Longrightarrow> csv_step srv' st = csv_step srv st"
  by (simp add: csv_step_def)

lemma csv_step_requests:
  "csv_step srv st = Continue st' \<Longrightarrow> requests st' = requests st @ [current_url st]"
  "csv_step srv st = Break st' \<Longrightarrow> requests st' = requests st @ [current_url st]"
  "csv_step srv st = Return (st', info) \<Longrightarrow> requests st' = requests st @ [current_url st]"
  by (auto simp: csv_step_def Let_def split: http_response.splits option.splits if_splits)

lemma csv_loop_replay:
  assumes "csv_loop srv st = Some res"
  shows "set (requests st) \<subseteq> set (requests (csv_end res))
     \<and> (\<forall>srv'. (\<forall>u \<in> set (requests (csv_end res)). srv' u = srv u) \<longrightarrow>
          csv_loop srv' st = Some res)"
proof (rule csv_loop.raw_induct
    [where P = "\<lambda>srv st res. set (requests st) \<subseteq> set (requests (csv_end res))
     \<and> (\<forall>srv'. (\<forall>u \<in> set (requests (csv_end res)). srv' u = srv u) \<longrightarrow>
          csv_loop srv' st = Some res)", OF _ assms])
  fix loop srv st res
  assume IH: "\<And>srv st res. loop srv st = Some res \<Longrightarrow>
      set (requests st) \<subseteq> set (requests (csv_end res))
      \<and> (\<forall>srv'. (\<forall>u \<in> set (requests (csv_end res)). srv' u = srv u) \<longrightarrow>
           csv_loop srv' st = Some res)"
    and body: "(if current_url st = [] then Some (Inr st)
      else case csv_step srv st of
             Continue st' \<Rightarrow> loop srv st'
           | Break st' \<Rightarrow> Some (Inr st')
           | Return e \<Rightarrow> Some (Inl e)) = Some res"
  show "set (requests st) \<subseteq> set (requests (csv_end res))
     \<and> (\<forall>srv'. (\<forall>u \<in> set (requests (csv_end res)). srv' u = srv u) \<longrightarrow>
          csv_loop srv' st = Some res)"
  proof (cases "current_url st = []")
    case True
    with body have res: "res = Inr st" by simp
    have "csv_loop srv' st = Some (Inr st)" for srv'
      using True by (subst csv_loop.simps) simp
    then show ?thesis
      unfolding res by (simp add: csv_end_def)
  next
    case False
    show ?thesis
    proof (cases "csv_step srv st")
      case (Continue st2)
      with False body have "loop srv st2 = Some res" by simp
      note ih = IH [OF this]
      from ih have sub: "set (requests st2) \<subseteq> set (requests (csv_end res))"
        by (rule conjunct1)
      from ih have re: "\<forall>srv'. (\<forall>u \<in> set (requests (csv_end res)). srv' u = srv u) \<longrightarrow>
           csv_loop srv' st2 = Some res"
        by (rule conjunct2)
      have rq: "requests st2 = requests st @ [current_url st]"
        using Continue by (rule csv_step_requests)
      have mem: "current_url st \<in> set (requests (csv_end res))"
        using sub rq by simp
      show ?thesis
      proof (intro conjI allI impI)
        show "set (requests st) \<subseteq> set (requests (csv_end res))"
          using sub rq by auto
      next
        fix srv'
        assume a: "\<forall>u \<in> set (requests (csv_end res)). srv' u = srv u"
        then have "srv' (current_url st) = srv (current_url st)"
          using mem by (rule bspec)
        then have "csv_step srv' st = csv_step srv st"
          by (rule csv_step_same)
        then have "csv_step srv' st = Continue st2"
          using Continue by simp
        then have "csv_loop srv' st = csv_loop srv' st2"
          using False by (subst csv_loop.simps) simp
        moreover have "csv_loop srv' st2 = Some res"
          using re a by (simp only:)
        ultimately show "csv_loop srv' st = Some res" by simp
      qed
    next
      case (Break st2)
      with False body have res: "res = Inr st2" by simp
      have rq: "requests st2 = requests st @ [current_url st]"
        using Break by (rule csv_step_requests)
      have e: "csv_end res = st2" by (simp add: res csv_end_def)
      show ?thesis
      proof (intro conjI allI impI)
        show "set (requests st) \<subseteq> set (requests (csv_end res))"
          unfolding e rq by auto
      next
        fix srv'
        assume a: "\<forall>u \<in> set (requests (csv_end res)). srv' u = srv u"
        have "current_url st \<in> set (requests (csv_end res))"
          unfolding e rq by simp
        with a have "srv' (current_url st) = srv (current_url st)"
          by (rule bspec)
        then have "csv_step srv' st = csv_step srv st"
          by (rule csv_step_same)
        then have "csv_step srv' st = Break st2"
          using Break by simp
        then show "csv_loop srv' st = Some res"
          using False res by (subst csv_loop.simps) simp
      qed
    next
      case (Return r)
      obtain st2 info where r: "r = (st2, info)" by (cases r)
      from Return False body have res: "res = Inl r" by simp
      have rq: "requests st2 = requests st @ [current_url st]"
        using Return unfolding r by (rule csv_step_requests)
      have e: "csv_end res = st2" by (simp add: res r csv_end_def)
      show ?thesis
      proof (intro conjI allI impI)
        show "set (requests st) \<subseteq> set (requests (csv_end res))"
          unfolding e rq by auto
      next
        fix srv'
        assume a: "\<forall>u \<in> set (requests (csv_end res)). srv' u = srv u"
        have "current_url st \<in> set (requests (csv_end res))"
          unfolding e rq by simp
        with a have "srv' (current_url st) = srv (current_url st)"
          by (rule bspec)
        then have "csv_step srv' st = csv_step srv st"
          by (rule csv_step_same)
        then have "csv_step srv' st = Return r"
          using Return by simp
        then show "csv_loop srv' st = Some res"
          using False res by (subst csv_loop.simps) simp
      qed
    qed
  qed
qed

lemma download_table_csv_replay:
  assumes "download_table_csv srv table_name temp_dir fs = Some r"
    and "\<forall>u \<in> set (sent r). srv' u = srv u"
  shows "download_table_csv srv' table_name temp_dir fs'
     = Some (r\<lparr>files := fs'(csv_file_path temp_dir table_name := files r (csv_file_path temp_dir table_name))\<rparr>)"
proof -
  define init where "init = \<lparr>current_url = base_url table_name, page_count = 0,
      total_records = 0, csv_file = [], requests = [],
      logs = [(INFO, StartingDownload table_name)]\<rparr>"
  from assms(1) obtain res where loop: "csv_loop srv init = Some res"
    by (auto simp: download_table_csv_def Let_def init_def [symmetric] split: option.splits)
  with assms(1) have s: "sent r = requests (csv_end res)"
    by (auto simp: download_table_csv_def Let_def init_def [symmetric] csv_end_def
        split: sum.splits)
  from csv_loop_replay [OF loop] assms(2) s have "csv_loop srv' init = Some res"
    by simp
  with assms(1) loop show ?thesis
    by (auto simp: download_table_csv_def Let_def init_def [symmetric] split: sum.splits)
qed

lemma download_table_csv_rerun:
  assumes "download_table_csv srv table_name temp_dir fs = Some r"
  shows "download_table_csv srv table_name temp_dir (files r) = Some r"
proof -
  have "download_table_csv srv table_name temp_dir (files r)
     = Some (r\<lparr>files := (files r)(csv_file_path temp_dir table_name := files r (csv_file_path temp_dir table_name))\<rparr>)"
    using assms by (rule download_table_csv_replay) simp
  then show ?thesis by simp
qed

lemma prospect_step_same:
  "srv' (u, p_params st) = srv (u, p_params st) \<Longrightarrow>
     prospect_step srv' u st = prospect_step srv u st"
  by (simp add: prospect_step_def)

lemma prospect_step_requests:
  assumes "prospect_step srv u st = Continue st' \<or> prospect_step srv u st = Break st'"
  shows "p_requests st' = p_requests st @ [(u, p_params st)]"
proof (cases "srv (u, p_params st)")
  case (TransportError info)
  with assms show ?thesis by (auto simp: prospect_step_def Let_def)
next
  case (Response body link)
  show ?thesis
  proof (cases body)
    case None
    with Response assms show ?thesis by (auto simp: prospect_step_def Let_def)
  next
    case (Some activities)
    with Response assms show ?thesis
      by (cases activities)
        (auto simp: prospect_step_def Let_def split: if_splits option.splits)
  qed
qed

lemma prospect_step_not_return: "prospect_step srv u st \<noteq> Return r"
proof (cases "srv (u, p_params st)")
  case (TransportError info)
  then show ?thesis by (simp add: prospect_step_def Let_def)
next
  case (Response body link)
  show ?thesis
  proof (cases body)
    case None
    with Response show ?thesis by (simp add: prospect_step_def Let_def)
  next
    case (Some activities)
    with Response show ?thesis
      by (cases activities)
        (auto simp: prospect_step_def Let_def split: if_splits option.splits)
  qed
qed

lemma prospect_loop_replay:
  assumes "prospect_loop srv st = Some st'"
  shows "set (p_requests st) \<subseteq> set (p_requests st')
     \<and> (\<forall>srv'. (\<forall>q \<in> set (p_requests st'). srv' q = srv q) \<longrightarrow>
          prospect_loop srv' st = Some st')"
proof (rule prospect_loop.raw_induct
    [where P = "\<lambda>srv st st'. set (p_requests st) \<subseteq> set (p_requests st')
     \<and> (\<forall>srv'. (\<forall>q \<in> set (p_requests st'). srv' q = srv q) \<longrightarrow>
          prospect_loop srv' st = Some st')", OF _ assms])
  fix loop srv st st'
  assume IH: "\<And>srv st st'. loop srv st = Some st' \<Longrightarrow>
      set (p_requests st) \<subseteq> set (p_requests st')
      \<and> (\<forall>srv'. (\<forall>q \<in> set (p_requests st'). srv' q = srv q) \<longrightarrow>
           prospect_loop srv' st = Some st')"
    and body: "(case p_url st of
        None \<Rightarrow> Some st
      | Some u \<Rightarrow>
          if u = [] then Some st
          else (case prospect_step srv u st of
                  Continue st' \<Rightarrow> loop srv st'
                | Break st' \<Rightarrow> Some st'
                | Return r \<Rightarrow> Some st)) = Some st'"
  have stop: "set (p_requests st) \<subseteq> set (p_requests st')
     \<and> (\<forall>srv'. (\<forall>q \<in> set (p_requests st'). srv' q = srv q) \<longrightarrow>
          prospect_loop srv' st = Some st')"
    if "p_url st = None \<or> p_url st = Some []"
  proof -
    from that body have "st' = st" by auto
    moreover have "prospect_loop srv' st = Some st" for srv'
      using that by (subst prospect_loop.simps) auto
    ultimately show ?thesis by simp
  qed
  show "set (p_requests st) \<subseteq> set (p_requests st')
     \<and> (\<forall>srv'. (\<forall>q \<in> set (p_requests st'). srv' q = srv q) \<longrightarrow>
          prospect_loop srv' st = Some st')"
  proof (cases "p_url st")
    case None
    then show ?thesis by (intro stop) simp
  next
    case (Some u)
    show ?thesis
    proof (cases "u = []")
      case True
      with Some show ?thesis by (intro stop) simp
    next
      case False
      show ?thesis
      proof (cases "prospect_step srv u st")
        case (Continue st2)
        with Some False body have "loop srv st2 = Some st'" by simp
        note ih = IH [OF this]
        from ih have sub: "set (p_requests st2) \<subseteq> set (p_requests st')"
          by (rule conjunct1)
        from ih have re: "\<forall>srv'. (\<forall>q \<in> set (p_requests st'). srv' q = srv q) \<longrightarrow>
             prospect_loop srv' st2 = Some st'"
          by (rule conjunct2)
        have rq: "p_requests st2 = p_requests st @ [(u, p_params st)]"
          using Continue prospect_step_requests [of srv u st st2] by simp
        have mem: "(u, p_params st) \<in> set (p_requests st')"
          using sub rq by simp
        show ?thesis
        proof (intro conjI allI impI)
          show "set (p_requests st) \<subseteq> set (p_requests st')"
            using sub rq by auto
        next
          fix srv'
          assume a: "\<forall>q \<in> set (p_requests st'). srv' q = srv q"
          then have "srv' (u, p_params st) = srv (u, p_params st)"
            using mem by (rule bspec)
          then have "prospect_step srv' u st = prospect_step srv u st"
            by (rule prospect_step_same)
          then have "prospect_step srv' u st = Continue st2"
            using Continue by simp
          then have "prospect_loop srv' st = prospect_loop srv' st2"
            using Some False by (subst prospect_loop.simps) simp
          moreover have "prospect_loop srv' st2 = Some st'"
            using re a by (simp only:)
          ultimately show "prospect_loop srv' st = Some st'" by simp
        qed
      next
        case (Break st2)
        with Some False body have res: "st' = st2" by simp
        have rq: "p_requests st2 = p_requests st @ [(u, p_params st)]"
          using Break prospect_step_requests [of srv u st st2] by simp
        show ?thesis
        proof (intro conjI allI impI)
          show "set (p_requests st) \<subseteq> set (p_requests st')"
            unfolding res rq by auto
        next
          fix srv'
          assume a: "\<forall>q \<in> set (p_requests st'). srv' q = srv q"
          have "(u, p_params st) \<in> set (p_requests st')"
            unfolding res rq by simp
          with a have "srv' (u, p_params st) = srv (u, p_params st)"
            by (rule bspec)
          then have "prospect_step srv' u st = prospect_step srv u st"
            by (rule prospect_step_same)
          then have "prospect_step srv' u st = Break st2"
            using Break by simp
          then show "prospect_loop srv' st = Some st'"
            using Some False res by (subst prospect_loop.simps) simp
        qed
      next
        case (Return r)
        then show ?thesis using prospect_step_not_return by blast
      qed
    qed
  qed
qed

lemma fetch_prospect_ids_replay:
  assumes "fetch_prospect_ids_from_activities srv n = Some r"
    and "\<forall>q \<in> set (p_sent r). srv' q = srv q"
  shows "fetch_prospect_ids_from_activities srv' n = Some r"
proof -
  define init where "init = \<lparr>p_url = Some activities_url, p_params = Some n,
      prospect_ids = {}, p_page_number = 1, p_requests = [],
      p_logs = [(INFO, StartingExtraction)]\<rparr>"
  from assms(1) obtain st' where loop: "prospect_loop srv init = Some st'"
    by (auto simp: fetch_prospect_ids_from_activities_def Let_def init_def [symmetric]
        split: option.splits)
  with assms(1) have s: "p_sent r = p_requests st'"
    by (auto simp: fetch_prospect_ids_from_activities_def Let_def init_def [symmetric])
  from prospect_loop_replay [OF loop] assms(2) s have "prospect_loop srv' init = Some st'"
    by simp
  with assms(1) loop show ?thesis
    by (simp add: fetch_prospect_ids_from_activities_def Let_def init_def [symmetric])
qed

lemma export_step_same:
  "srv' u = srv u \<Longrightarrow>
     export_step read_csv table_name srv' u st = export_step read_csv table_name srv u st"
  by (simp add: export_step_def)

lemma export_step_requests:
  "export_step read_csv table_name srv u st = Continue st' \<Longrightarrow>
     e_requests st' = e_requests st @ [u]"
  "export_step read_csv table_name srv u st = Return r \<Longrightarrow> e_sent r = e_requests st @ [u]"
  "export_step read_csv table_name srv u st \<noteq> Break st'"
  by (auto simp: export_step_def Let_def
      split: http_response.splits option.splits if_splits prod.splits)

lemma export_loop_replay:
  assumes "export_loop read_csv table_name srv st = Some res"
  shows "set (e_requests st) \<subseteq> set (export_end res)
     \<and> (\<forall>srv'. (\<forall>u \<in> set (export_end res). srv' u = srv u) \<longrightarrow>
          export_loop read_csv table_name srv' st = Some res)"
proof (rule export_loop.raw_induct
    [where P = "\<lambda>read_csv table_name srv st res. set (e_requests st) \<subseteq> set (export_end res)
     \<and> (\<forall>srv'. (\<forall>u \<in> set (export_end res). srv' u = srv u) \<longrightarrow>
          export_loop read_csv table_name srv' st = Some res)", OF _ assms])
  fix loop and read_csv :: "string \<Rightarrow> 'a dataframe option" and table_name srv
    and st :: "'a export_state" and res
  assume IH: "\<And>read_csv table_name srv st res. loop read_csv table_name srv st = Some res \<Longrightarrow>
      set (e_requests st) \<subseteq> set (export_end res)
      \<and> (\<forall>srv'. (\<forall>u \<in> set (export_end res). srv' u = srv u) \<longrightarrow>
           export_loop read_csv table_name srv' st = Some res)"
    and body: "(case e_url st of
        None \<Rightarrow> Some (Inr st)
      | Some u \<Rightarrow>
          if u = [] then Some (Inr st)
          else (case export_step read_csv table_name srv u st of
                  Continue st' \<Rightarrow> loop read_csv table_name srv st'
                | Break st' \<Rightarrow> Some (Inr st')
                | Return r \<Rightarrow> Some (Inl r))) = Some res"
  have stop: "set (e_requests st) \<subseteq> set (export_end res)
     \<and> (\<forall>srv'. (\<forall>u \<in> set (export_end res). srv' u = srv u) \<longrightarrow>
          export_loop read_csv table_name srv' st = Some res)"
    if "e_url st = None \<or> e_url st = Some []"
  proof -
    from that body have "res = Inr st" by auto
    moreover have "export_loop read_csv table_name srv' st = Some (Inr st)" for srv'
      using that by (subst export_loop.simps) auto
    ultimately show ?thesis by (simp add: export_end_def)
  qed
  show "set (e_requests st) \<subseteq> set (export_end res)
     \<and> (\<forall>srv'. (\<forall>u \<in> set (export_end res). srv' u = srv u) \<longrightarrow>
          export_loop read_csv table_name srv' st = Some res)"
  proof (cases "e_url st")
    case None
    then show ?thesis by (intro stop) simp
  next
    case (Some u)
    show ?thesis
    proof (cases "u = []")
      case True
      with Some show ?thesis by (intro stop) simp
    next
      case False
      show ?thesis
      proof (cases "export_step read_csv table_name srv u st")
        case (Continue st2)
        with Some False body have "loop read_csv table_name srv st2 = Some res" by simp
        note ih = IH [OF this]
        from ih have sub: "set (e_requests st2) \<subseteq> set (export_end res)"
          by (rule conjunct1)
        from ih have re: "\<forall>srv'. (\<forall>u \<in> set (export_end res). srv' u = srv u) \<longrightarrow>
             export_loop read_csv table_name srv' st2 = Some res"
          by (rule conjunct2)
        have rq: "e_requests st2 = e_requests st @ [u]"
          using Continue by (rule export_step_requests)
        have mem: "u \<in> set (export_end res)"
          using sub rq by simp
        show ?thesis
        proof (intro conjI allI impI)
          show "set (e_requests st) \<subseteq> set (export_end res)"
            using sub rq by auto
        next
          fix srv'
          assume a: "\<forall>u \<in> set (export_end res). srv' u = srv u"
          then have "srv' u = srv u"
            using mem by (rule bspec)
          then have "export_step read_csv table_name srv' u st
              = export_step read_csv table_name srv u st"
            by (rule export_step_same)
          then have "export_step read_csv table_name srv' u st = Continue st2"
            using Continue by simp
          then have "export_loop read_csv table_name srv' st
              = export_loop read_csv table_name srv' st2"
            using Some False by (subst export_loop.simps) simp
          moreover have "export_loop read_csv table_name srv' st2 = Some res"
            using re a by (simp only:)
          ultimately show "export_loop read_csv table_name srv' st = Some res" by simp
        qed
      next
        case (Break st2)
        then show ?thesis using export_step_requests(3) by blast
      next
        case (Return r)
        with Some False body have res: "res = Inl r" by simp
        have rq: "e_sent r = e_requests st @ [u]"
          using Return by (rule export_step_requests)
        have e: "export_end res = e_sent r" by (simp add: res export_end_def)
        show ?thesis
        proof (intro conjI allI impI)
          show "set (e_requests st) \<subseteq> set (export_end res)"
            unfolding e rq by auto
        next
          fix srv'
          assume a: "\<forall>u \<in> set (export_end res). srv' u = srv u"
          have "u \<in> set (export_end res)"
            unfolding e rq by simp
          with a have "srv' u = srv u"
            by (rule bspec)
          then have "export_step read_csv table_name srv' u st
              = export_step read_csv table_name srv u st"
            by (rule export_step_same)
          then have "export_step read_csv table_name srv' u st = Return r"
            using Return by simp
          then show "export_loop read_csv table_name srv' st = Some res"
            using Some False res by (subst export_loop.simps) simp
        qed
      qed
    qed
  qed
qed

lemma fetch_all_ids_replay:
  assumes "fetch_all_ids_from_api read_csv srv table_name n = Some r"
    and "\<forall>u \<in> set (e_sent r). srv' u = srv u"
  shows "fetch_all_ids_from_api read_csv srv' table_name n = Some r"
proof -
  define init :: "'a export_state" where "init = \<lparr>e_url = Some (export_url table_name n),
      all_ids = [], e_page_number = 1, e_requests = [],
      e_logs = [(INFO, StartingFetch table_name)]\<rparr>"
  from assms(1) obtain res where loop: "export_loop read_csv table_name srv init = Some res"
    by (auto simp: fetch_all_ids_from_api_def Let_def init_def [symmetric]
        split: option.splits)
  with assms(1) have s: "e_sent r = export_end res"
    by (auto simp: fetch_all_ids_from_api_def Let_def init_def [symmetric] export_end_def
        split: sum.splits)
  from export_loop_replay [OF loop] assms(2) s
  have "export_loop read_csv table_name srv' init = Some res"
    by simp
  with assms(1) loop show ?thesis
    by (simp add: fetch_all_ids_from_api_def Let_def init_def [symmetric])
qed

subsection \<open>The id column of a page\<close>

lemma snake_tables:
  "map to_snake_case tables_to_process =
     [''organizations'', ''referrers'', ''influencers'', ''units'', ''housing_contracts'',
      ''deposit_transactions'', ''marketing_touchpoints'', ''service_agreements'', ''traits'',
      ''prospects'', ''residents'', ''activities'']"
  unfolding tables_to_process_def by code_simp

lemma export_step_found:
  assumes "srv u = Response body link" and "strip body \<noteq> []"
    and "read_csv body = Some df"
    and "map_of df (to_snake_case table_name @ ''.id'') = Some cells"
  shows "export_step read_csv table_name srv u st
     = Continue (st\<lparr>e_url := export_next_url link,
          all_ids := all_ids st @ dropna cells,
          e_page_number := e_page_number st + 1,
          e_requests := e_requests st @ [u],
          e_logs := e_logs st @
            [(INFO, FoundIdColumn (to_snake_case table_name @ ''.id'')),
             (INFO, PageFetched (e_page_number st) (int (length (dropna cells))))]\<rparr>)"
proof -
  have "to_snake_case table_name @ ''.id'' \<in> fst ` set df"
    using assms(4) by (metis map_of_eq_None_iff option.distinct(1))
  then have "resolve_id_column table_name (map fst df)
      = Some (to_snake_case table_name @ ''.id'', INFO,
          FoundIdColumn (to_snake_case table_name @ ''.id''))"
    by (simp add: resolve_id_column_def expected_id_column_def Let_def)
  then have "page_ids read_csv table_name body
      = Some (dropna cells, INFO, FoundIdColumn (to_snake_case table_name @ ''.id''))"
    using assms(3,4) by (simp add: page_ids_def)
  then show ?thesis
    using assms(1,2) by (simp add: export_step_def)
qed

lemma export_step_fallback:
  assumes "srv u = Response body link" and "strip body \<noteq> []"
    and "read_csv body = Some ((first, cells) # columns)"
    and "to_snake_case table_name @ ''.id'' \<notin> set (first # map fst columns)"
  shows "export_step read_csv table_name srv u st
     = Continue (st\<lparr>e_url := export_next_url link,
          all_ids := all_ids st @ dropna cells,
          e_page_number := e_page_number st + 1,
          e_requests := e_requests st @ [u],
          e_logs := e_logs st @
            [(WARNING, FallbackIdColumn (to_snake_case table_name @ ''.id'') first),
             (INFO, PageFetched (e_page_number st) (int (length (dropna cells))))]\<rparr>)"
  using assms
  by (simp add: export_step_def page_ids_def resolve_id_column_def expected_id_column_def
      Let_def)

lemma may_return_same:
  assumes "may_return r xs" and "may_return r ys"
  shows "set xs = set ys \<and> length xs = length ys"
proof -
  from assms have s: "set xs = set ys" and d: "distinct xs" "distinct ys"
    by (simp_all add: may_return_def)
  from d have "length xs = card (set xs)" "length ys = card (set ys)"
    by (simp_all add: distinct_card)
  with s show ?thesis by simp
qed

section \<open>The properties\<close>

text \<open>
  C1 at a failing input. The first page of activities holds prospect 7 and links to a
  second page; the request for the second page raises. The prospect-ID fetch logs the error
  and returns the id collected from the first page.
\<close>

theorem prospect_partial_on_transport_error:
  "\<exists>r. fetch_prospect_ids_from_activities error_on_second 10000 = Some r
     \<and> prospects r = {JNum 7}
     \<and> p_sent r = [(activities_url, Some 10000), (cursor_url, None)]
     \<and> (ERROR, ActivitiesFetchError 2) \<in> set (p_logged r)"
  by (simp add: fetch_prospect_ids_from_activities_def prospect_loop.simps prospect_step_def
      error_on_second_def prospect_activity_def dict_get_def set_add_def prospect_next_url_def
      next_link_def cursor_url_def match_rel_next_at_def is_space_def activities_url_def Let_def)




text \<open>
  C3, as amended. In the prospect-ID path an empty page ends the loop from any loop state
  with an info line and the ids collected so far; as the first page it gives the empty
  result with info lines only. In \<^verbatim>\<open>fetch_all_ids_from_api\<close> a blank body ends the fetch from
  any loop state with an error line and the empty list, whatever was collected before. In
  text-merge mode a blank body after the first page adds no record and no text, and the
  loop goes on to the URL of the page's link header when there is one.
\<close>

theorem empty_page_handling:
  "(p_url st = Some u \<and> u \<noteq> [] \<and> srv (u, p_params st) = Response (Some activities) link
      \<and> \<not> truthy activities \<longrightarrow>
     prospect_loop srv st
       = Some (st\<lparr>p_requests := p_requests st @ [(u, p_params st)],
                 p_logs := p_logs st @ [(INFO, NoMoreActivities (p_page_number st))]\<rparr>))
   \<and> (srv (activities_url, Some n) = Response (Some activities) link \<and> \<not> truthy activities \<longrightarrow>
       (\<exists>r. fetch_prospect_ids_from_activities srv n = Some r \<and> prospects r = {}
          \<and> (\<forall>entry \<in> set (p_logged r). fst entry = INFO)))
   \<and> (e_url est = Some eu \<and> eu \<noteq> [] \<and> esrv eu = Response body elink \<and> strip body = [] \<longrightarrow>
       export_loop read_csv table_name esrv est
         = Some (Inl \<lparr>ids = [], e_sent = e_requests est @ [eu],
                      e_logged = e_logs est @ [(ERROR, EmptyResponse table_name)]\<rparr>))
   \<and> (csrv (current_url cst) = Response content clink \<and> strip content = []
        \<and> 1 \<le> page_count cst \<longrightarrow>
       (\<exists>cst'. (csv_step csrv cst = Continue cst' \<or> csv_step csrv cst = Break cst')
          \<and> csv_file cst' = csv_file cst \<and> total_records cst' = total_records cst
          \<and> (\<forall>next_url. get_next_page_url clink = Some next_url \<and> next_url \<noteq> [] \<longrightarrow>
               csv_step csrv cst = Continue cst' \<and> current_url cst' = next_url)))"
  using prospect_loop_empty_page [of st u srv activities link]
    fetch_prospect_ids_empty_first_page [of srv n activities link]
    export_loop_blank_page [of est eu esrv body elink read_csv table_name]
    csv_step_blank_page [of csrv cst content clink]
  by blast

text \<open>
  \<^verbatim>\<open>fetch_all_ids_from_api\<close> on two pages, the first with the ids 1 and 2, the second
  blank: the result is the empty list and the last log line is an error.
\<close>

theorem empty_page_counterexample:
  "\<exists>r. fetch_all_ids_from_api example_read_csv export_blank_second ''DepositTransactions'' 10000
       = Some r
     \<and> ids r = []
     \<and> last (e_logged r) = (ERROR, EmptyResponse ''DepositTransactions'')
     \<and> page_values example_read_csv ''DepositTransactions'' ''other_id\<newline>1\<newline>2'' = [1, 2]"
proof -
  define u where "u = export_url ''DepositTransactions'' 10000"
  define init :: "int export_state" where "init = \<lparr>e_url = Some u, all_ids = [],
      e_page_number = 1, e_requests = [],
      e_logs = [(INFO, StartingFetch ''DepositTransactions'')]\<rparr>"
  define st2 where "st2 = init\<lparr>e_url := Some cursor_url, all_ids := [1, 2],
      e_page_number := 2, e_requests := [u],
      e_logs := e_logs init @
        [(WARNING, FallbackIdColumn ''deposit_transactions.id'' ''other_id''),
         (INFO, PageFetched 1 2)]\<rparr>"
  have ok: "url_ok cursor_url" by (simp add: url_ok_def cursor_url_def)
  have une: "u \<noteq> []" by (simp add: u_def export_url_def export_base_url_def)
  have "export_step example_read_csv ''DepositTransactions'' export_blank_second u init
      = Continue st2"
    by (simp add: export_step_def export_blank_second_def u_def [symmetric] strip_def
        is_space_def page_ids_def example_read_csv_def resolve_id_column_def
        expected_id_column_def snake_deposit export_next_url_next_link [OF ok] st2_def init_def)
  then have "export_loop example_read_csv ''DepositTransactions'' export_blank_second init
      = export_loop example_read_csv ''DepositTransactions'' export_blank_second st2"
    using une by (subst export_loop.simps) (simp add: init_def)
  also have "\<dots> = Some (Inl \<lparr>ids = [], e_sent = e_requests st2 @ [cursor_url],
        e_logged = e_logs st2 @ [(ERROR, EmptyResponse ''DepositTransactions'')]\<rparr>)"
    by (rule export_loop_blank_page [where body = "[]" and link = None])
      (simp_all add: st2_def export_blank_second_def cursor_url_def export_url_def
        export_base_url_def strip_def)
  finally show ?thesis
    using example_page_values(1)
    by (simp add: fetch_all_ids_from_api_def Let_def u_def [symmetric] init_def [symmetric])
qed

theorem empty_page_handling_witness:
  "one_page (JArr []) (activities_url, Some 10000) = Response (Some (JArr [])) None
   \<and> \<not> truthy (JArr [])
   \<and> (\<exists>r. fetch_prospect_ids_from_activities (one_page (JArr [])) 10000 = Some r
        \<and> prospects r = {} \<and> (\<forall>entry \<in> set (p_logged r). fst entry = INFO))
   \<and> prospect_loop (one_page (JArr [])) prospect_start
       = Some (prospect_start\<lparr>p_requests := [(activities_url, Some 10000)],
            p_logs := [(INFO, StartingExtraction), (INFO, NoMoreActivities 1)]\<rparr>)
   \<and> strip [] = []
   \<and> export_loop example_read_csv ''DepositTransactions'' blank_srv export_start
       = Some (Inl \<lparr>ids = [], e_sent = [export_url ''DepositTransactions'' 10000],
            e_logged = [(INFO, StartingFetch ''DepositTransactions''),
                        (ERROR, EmptyResponse ''DepositTransactions'')]\<rparr>)
   \<and> 1 \<le> page_count header_only_state
   \<and> (\<exists>st'. csv_step blank_srv header_only_state = Continue st'
        \<and> current_url st' = cursor_url
        \<and> csv_file st' = csv_file header_only_state
        \<and> total_records st' = total_records header_only_state)"
proof -
  have a: "one_page (JArr []) (activities_url, Some 10000) = Response (Some (JArr [])) None"
    by (simp add: one_page_def)
  have f: "\<not> truthy (JArr [])" by simp
  have ne: "activities_url \<noteq> []" by (simp add: activities_url_def)
  have top: "\<exists>r. fetch_prospect_ids_from_activities (one_page (JArr [])) 10000 = Some r
        \<and> prospects r = {} \<and> (\<forall>entry \<in> set (p_logged r). fst entry = INFO)"
    using empty_page_handling [where srv = "one_page (JArr [])" and n = 10000
        and activities = "JArr []" and link = None, THEN conjunct2, THEN conjunct1] a f
    by blast
  have loop: "prospect_loop (one_page (JArr [])) prospect_start
       = Some (prospect_start\<lparr>p_requests := [(activities_url, Some 10000)],
            p_logs := [(INFO, StartingExtraction), (INFO, NoMoreActivities 1)]\<rparr>)"
    using empty_page_handling [where st = prospect_start and u = activities_url
        and srv = "one_page (JArr [])" and activities = "JArr []" and link = None,
        THEN conjunct1] a f ne
    by (simp add: prospect_start_def)
  have s: "strip [] = []" by (simp add: strip_def)
  have une: "export_url ''DepositTransactions'' 10000 \<noteq> []"
    by (simp add: export_url_def export_base_url_def)
  have export: "export_loop example_read_csv ''DepositTransactions'' blank_srv export_start
       = Some (Inl \<lparr>ids = [], e_sent = [export_url ''DepositTransactions'' 10000],
            e_logged = [(INFO, StartingFetch ''DepositTransactions''),
                        (ERROR, EmptyResponse ''DepositTransactions'')]\<rparr>)"
    using empty_page_handling [where est = export_start
        and eu = "export_url ''DepositTransactions'' 10000" and esrv = blank_srv
        and body = "[]" and elink = "Some (next_link cursor_url)"
        and read_csv = example_read_csv and table_name = "''DepositTransactions''",
        THEN conjunct2, THEN conjunct2, THEN conjunct1] s une
    by (simp add: export_start_def blank_srv_def)
  have pc: "1 \<le> page_count header_only_state" by (simp add: header_only_state_def)
  have nx: "get_next_page_url (Some (next_link cursor_url)) = Some cursor_url"
    by (rule get_next_page_url_next_link) (simp add: url_ok_def cursor_url_def)
  have cne: "cursor_url \<noteq> []" by (simp add: cursor_url_def)
  have csv: "\<exists>st'. csv_step blank_srv header_only_state = Continue st'
        \<and> current_url st' = cursor_url
        \<and> csv_file st' = csv_file header_only_state
        \<and> total_records st' = total_records header_only_state"
    using empty_page_handling [where cst = header_only_state and csrv = blank_srv
        and content = "[]" and clink = "Some (next_link cursor_url)",
        THEN conjunct2, THEN conjunct2, THEN conjunct2] s pc nx cne
    by (auto simp: blank_srv_def)
  show ?thesis
    using a f top loop s export pc csv by blast
qed

text \<open>
  C4, as amended. In text-merge mode the lines of the file are the lines of page 1 followed
  by the lines after the header of every later page, in page order; in the structured merge
  of \<^verbatim>\<open>fetch_all_ids_from_api\<close> the list of ids is the concatenation, in page order, of the
  values of each page, and the values of a page are the non-null cells of one column in the
  order of the column.
\<close>

theorem merge_preserves_order:
  "(link_chain srv (base_url table_name) b ps \<longrightarrow>
      (\<exists>r content. download_table_csv srv table_name temp_dir fs = Some r
         \<and> files r (csv_file_path temp_dir table_name) = Some content
         \<and> split_on NL content
             = split_on NL b @ concat (map (\<lambda>body. tl (body_lines body)) (map snd ps))))
   \<and> (link_chain srv' (export_url table_name n) b ps
       \<and> (\<forall>body \<in> set (b # map snd ps). page_ok read_csv table_name body) \<longrightarrow>
      (\<exists>r. fetch_all_ids_from_api read_csv srv' table_name n = Some r
         \<and> ids r = concat (map (page_values read_csv table_name) (b # map snd ps))))
   \<and> (\<forall>body. page_ok read_csv table_name body \<longrightarrow>
        (\<exists>df column cells. read_csv body = Some df \<and> (column, cells) \<in> set df
           \<and> map Some (page_values read_csv table_name body) = filter (\<lambda>c. c \<noteq> None) cells))"
proof (intro conjI impI allI)
  assume "link_chain srv (base_url table_name) b ps"
  from download_table_csv_chain [OF this, of temp_dir fs]
  obtain r where "download_table_csv srv table_name temp_dir fs = Some r"
    and "files r (csv_file_path temp_dir table_name)
         = Some (b @ concat (map later_part (map snd ps)))"
    by blast
  then show "\<exists>r content. download_table_csv srv table_name temp_dir fs = Some r
         \<and> files r (csv_file_path temp_dir table_name) = Some content
         \<and> split_on NL content
             = split_on NL b @ concat (map (\<lambda>body. tl (body_lines body)) (map snd ps))"
    using split_on_merged [of b "map snd ps"] by blast
next
  assume "link_chain srv' (export_url table_name n) b ps
       \<and> (\<forall>body \<in> set (b # map snd ps). page_ok read_csv table_name body)"
  then show "\<exists>r. fetch_all_ids_from_api read_csv srv' table_name n = Some r
         \<and> ids r = concat (map (page_values read_csv table_name) (b # map snd ps))"
    using fetch_all_ids_chain [of srv' table_name n b ps read_csv] by blast
next
  fix body
  assume "page_ok read_csv table_name body"
  then show "\<exists>df column cells. read_csv body = Some df \<and> (column, cells) \<in> set df
           \<and> map Some (page_values read_csv table_name body) = filter (\<lambda>c. c \<noteq> None) cells"
    by (rule page_values_cells)
qed

text \<open>
  The prospect-ID path collects into a set: a page that lists the prospects 2 and 1 and a
  page that lists them as 1 and 2 give the same result, so the result does not carry the
  order of the records. (CPython lists the set of 2 and 1 as 1, 2.)
\<close>

theorem prospect_order_counterexample:
  "map_option prospects (fetch_prospect_ids_from_activities
       (one_page (JArr [prospect_activity (JNum 2), prospect_activity (JNum 1)])) 10000)
     = Some {JNum 1, JNum 2}
   \<and> map_option prospects (fetch_prospect_ids_from_activities
       (one_page (JArr [prospect_activity (JNum 1), prospect_activity (JNum 2)])) 10000)
     = Some {JNum 1, JNum 2}"
  by (auto simp: fetch_prospect_ids_from_activities_def prospect_loop.simps prospect_step_def
      one_page_def prospect_activity_def dict_get_def set_add_def prospect_next_url_def
      activities_url_def Let_def)

theorem merge_preserves_order_witness:
  "link_chain two_pages (base_url ''T'') ''id,name\<newline>1,a\<newline>2,b'' [(cursor_url, ''id,name\<newline>3,c'')]
   \<and> (\<exists>r content. download_table_csv two_pages ''T'' ''tmp'' Map.empty = Some r
        \<and> files r ''tmp/T.csv'' = Some content
        \<and> split_on NL content = [''id,name'', ''1,a'', ''2,b'', ''3,c''])
   \<and> link_chain export_two_pages (export_url ''DepositTransactions'' 10000) ''other_id\<newline>1\<newline>2''
        [(cursor_url, ''other_id\<newline>3'')]
   \<and> page_ok example_read_csv ''DepositTransactions'' ''other_id\<newline>1\<newline>2''
   \<and> page_ok example_read_csv ''DepositTransactions'' ''other_id\<newline>3''
   \<and> (\<exists>r. fetch_all_ids_from_api example_read_csv export_two_pages ''DepositTransactions'' 10000
          = Some r
        \<and> ids r = [1, 2, 3])"
proof -
  have p: "csv_file_path ''tmp'' ''T'' = ''tmp/T.csv''"
    by (simp add: csv_file_path_def path_join_def)
  have l: "body_lines ''id,name\<newline>3,c'' = [''id,name'', ''3,c'']"
    by (simp add: body_lines_def strip_def is_space_def)
  have csv: "\<exists>r content. download_table_csv two_pages ''T'' ''tmp'' Map.empty = Some r
        \<and> files r ''tmp/T.csv'' = Some content
        \<and> split_on NL content = [''id,name'', ''1,a'', ''2,b'', ''3,c'']"
    using merge_preserves_order [where srv = two_pages and table_name = "''T''"
        and b = "''id,name\<newline>1,a\<newline>2,b''" and ps = "[(cursor_url, ''id,name\<newline>3,c'')]"
        and temp_dir = "''tmp''" and fs = Map.empty, THEN conjunct1]
      two_pages_chain
    by (simp add: p l)
  have ok: "\<forall>body \<in> set [''other_id\<newline>1\<newline>2'', ''other_id\<newline>3''].
         page_ok example_read_csv ''DepositTransactions'' body"
    using example_page_ok by simp
  have export: "\<exists>r. fetch_all_ids_from_api example_read_csv export_two_pages
          ''DepositTransactions'' 10000 = Some r \<and> ids r = [1, 2, 3]"
    using merge_preserves_order [where table_name = "''DepositTransactions''"
        and b = "''other_id\<newline>1\<newline>2''" and ps = "[(cursor_url, ''other_id\<newline>3'')]"
        and srv' = export_two_pages and n = 10000 and read_csv = example_read_csv,
        THEN conjunct2, THEN conjunct1]
      export_two_pages_chain ok
    by (simp add: example_page_values)
  show ?thesis
    using two_pages_chain csv export_two_pages_chain example_page_ok export by blast
qed

text \<open>
  C5. In structured-merge mode the target column of a table is its snake-case name followed
  by \<^verbatim>\<open>.id\<close>; the tables of the pipeline get the names listed, and \<^verbatim>\<open>DepositTransactions\<close>
  gets \<^verbatim>\<open>deposit_transactions.id\<close>. When the parsed page has that column, a pass of the loop
  adds the non-null cells of that column to the ids and logs that the column was found.
  When the page does not have it, the pass does not raise: it adds the non-null cells of the
  first column and logs a warning that names both columns.
\<close>

theorem id_column_resolution:
  "map to_snake_case tables_to_process =
     [''organizations'', ''referrers'', ''influencers'', ''units'', ''housing_contracts'',
      ''deposit_transactions'', ''marketing_touchpoints'', ''service_agreements'', ''traits'',
      ''prospects'', ''residents'', ''activities'']
   \<and> to_snake_case ''DepositTransactions'' @ ''.id'' = ''deposit_transactions.id''
   \<and> (srv u = Response body link \<and> strip body \<noteq> [] \<and> read_csv body = Some df
        \<and> map_of df (to_snake_case table_name @ ''.id'') = Some cells \<longrightarrow>
       export_step read_csv table_name srv u st
         = Continue (st\<lparr>e_url := export_next_url link,
              all_ids := all_ids st @ dropna cells,
              e_page_number := e_page_number st + 1,
              e_requests := e_requests st @ [u],
              e_logs := e_logs st @
                [(INFO, FoundIdColumn (to_snake_case table_name @ ''.id'')),
                 (INFO, PageFetched (e_page_number st) (int (length (dropna cells))))]\<rparr>))
   \<and> (srv u = Response body link \<and> strip body \<noteq> []
        \<and> read_csv body = Some ((first, first_cells) # columns)
        \<and> to_snake_case table_name @ ''.id'' \<notin> set (first # map fst columns) \<longrightarrow>
       export_step read_csv table_name srv u st
         = Continue (st\<lparr>e_url := export_next_url link,
              all_ids := all_ids st @ dropna first_cells,
              e_page_number := e_page_number st + 1,
              e_requests := e_requests st @ [u],
              e_logs := e_logs st @
                [(WARNING, FallbackIdColumn (to_snake_case table_name @ ''.id'') first),
                 (INFO, PageFetched (e_page_number st) (int (length (dropna first_cells))))]\<rparr>))"
  using snake_tables snake_deposit
    export_step_found [of srv u body link read_csv df table_name cells st]
    export_step_fallback [of srv u body link read_csv first first_cells columns table_name st]
  by simp

theorem id_column_resolution_witness:
  "id_column_srv (export_url ''DepositTransactions'' 10000) = Response id_column_page None
   \<and> strip id_column_page \<noteq> []
   \<and> id_column_read_csv id_column_page
       = Some [(''other_id'', [Some 1, Some 2, Some 3]),
               (''deposit_transactions.id'', [Some 5, None, Some 6])]
   \<and> map_of [(''other_id'', [Some 1, Some 2, Some 3]),
              (''deposit_transactions.id'', [Some 5, None, Some (6::int)])]
        (to_snake_case ''DepositTransactions'' @ ''.id'') = Some [Some 5, None, Some 6]
   \<and> export_step id_column_read_csv ''DepositTransactions'' id_column_srv
        (export_url ''DepositTransactions'' 10000) export_start
       = Continue (export_start\<lparr>e_url := None, all_ids := [5, 6], e_page_number := 2,
            e_requests := [export_url ''DepositTransactions'' 10000],
            e_logs := [(INFO, StartingFetch ''DepositTransactions''),
                       (INFO, FoundIdColumn ''deposit_transactions.id''),
                       (INFO, PageFetched 1 2)]\<rparr>)
   \<and> export_two_pages (export_url ''DepositTransactions'' 10000)
       = Response ''other_id\<newline>1\<newline>2'' (Some (next_link cursor_url))
   \<and> strip ''other_id\<newline>1\<newline>2'' \<noteq> []
   \<and> id_column_read_csv ''other_id\<newline>1\<newline>2'' = Some [(''other_id'', [Some 1, Some 2])]
   \<and> to_snake_case ''DepositTransactions'' @ ''.id'' \<notin> set [''other_id'']
   \<and> export_step id_column_read_csv ''DepositTransactions'' export_two_pages
        (export_url ''DepositTransactions'' 10000) export_start
       = Continue (export_start\<lparr>e_url := Some cursor_url, all_ids := [1, 2],
            e_page_number := 2,
            e_requests := [export_url ''DepositTransactions'' 10000],
            e_logs := [(INFO, StartingFetch ''DepositTransactions''),
                       (WARNING, FallbackIdColumn ''deposit_transactions.id'' ''other_id''),
                       (INFO, PageFetched 1 2)]\<rparr>)"
proof -
  have e: "to_snake_case ''DepositTransactions'' @ ''.id'' = ''deposit_transactions.id''"
    using id_column_resolution by blast
  have a: "id_column_srv (export_url ''DepositTransactions'' 10000) = Response id_column_page None"
    by (simp add: id_column_srv_def)
  have b: "strip id_column_page \<noteq> []"
    by (simp add: id_column_page_def strip_def is_space_def)
  have c: "id_column_read_csv id_column_page
       = Some [(''other_id'', [Some 1, Some 2, Some 3]),
               (''deposit_transactions.id'', [Some 5, None, Some 6])]"
    by (simp add: id_column_read_csv_def)
  have d: "map_of [(''other_id'', [Some 1, Some 2, Some 3]),
              (''deposit_transactions.id'', [Some 5, None, Some (6::int)])]
        (to_snake_case ''DepositTransactions'' @ ''.id'') = Some [Some 5, None, Some 6]"
    unfolding e by simp
  have found: "export_step id_column_read_csv ''DepositTransactions'' id_column_srv
        (export_url ''DepositTransactions'' 10000) export_start
       = Continue (export_start\<lparr>e_url := None, all_ids := [5, 6], e_page_number := 2,
            e_requests := [export_url ''DepositTransactions'' 10000],
            e_logs := [(INFO, StartingFetch ''DepositTransactions''),
                       (INFO, FoundIdColumn ''deposit_transactions.id''),
                       (INFO, PageFetched 1 2)]\<rparr>)"
    using id_column_resolution [where srv = id_column_srv
        and u = "export_url ''DepositTransactions'' 10000" and body = id_column_page
        and link = None and read_csv = id_column_read_csv
        and df = "[(''other_id'', [Some 1, Some 2, Some 3]),
                   (''deposit_transactions.id'', [Some 5, None, Some 6])]"
        and cells = "[Some 5, None, Some 6]"
        and table_name = "''DepositTransactions''" and st = export_start,
        THEN conjunct2, THEN conjunct2, THEN conjunct1]
      a b c d
    by (simp add: e export_start_def export_next_url_def)
  have a2: "export_two_pages (export_url ''DepositTransactions'' 10000)
       = Response ''other_id\<newline>1\<newline>2'' (Some (next_link cursor_url))"
    by (simp add: export_two_pages_def)
  have b2: "strip ''other_id\<newline>1\<newline>2'' \<noteq> []"
    by (simp add: strip_def is_space_def)
  have c2: "id_column_read_csv ''other_id\<newline>1\<newline>2'' = Some [(''other_id'', [Some 1, Some 2])]"
    by (simp add: id_column_read_csv_def id_column_page_def example_read_csv_def)
  have d2: "to_snake_case ''DepositTransactions'' @ ''.id'' \<notin> set [''other_id'']"
    unfolding e by simp
  have nx: "export_next_url (Some (next_link cursor_url)) = Some cursor_url"
    by (rule export_next_url_next_link) (simp add: url_ok_def cursor_url_def)
  have fallback: "export_step id_column_read_csv ''DepositTransactions'' export_two_pages
        (export_url ''DepositTransactions'' 10000) export_start
       = Continue (export_start\<lparr>e_url := Some cursor_url, all_ids := [1, 2],
            e_page_number := 2,
            e_requests := [export_url ''DepositTransactions'' 10000],
            e_logs := [(INFO, StartingFetch ''DepositTransactions''),
                       (WARNING, FallbackIdColumn ''deposit_transactions.id'' ''other_id''),
                       (INFO, PageFetched 1 2)]\<rparr>)"
    using id_column_resolution [where srv = export_two_pages
        and u = "export_url ''DepositTransactions'' 10000" and body = "''other_id\<newline>1\<newline>2''"
        and link = "Some (next_link cursor_url)" and read_csv = id_column_read_csv
        and first = "''other_id''" and first_cells = "[Some 1, Some 2]" and columns = "[]"
        and table_name = "''DepositTransactions''" and st = export_start,
        THEN conjunct2, THEN conjunct2, THEN conjunct2]
      a2 b2 c2 d2
    by (simp add: e nx export_start_def)
  show ?thesis
    using a b c d found a2 b2 c2 d2 fallback by blast
qed

text \<open>
  C6. In text-merge mode, along a well-formed chain of pages the download returns the
  file path, and the file holds the body of page 1 verbatim followed, for every later
  page in turn, by a line feed and the lines of that page after its first line; the total
  logged on completion is the sum of the record counts. For the two pages
  \<^verbatim>\<open>id,name\n1,a\n2,b\<close> and \<^verbatim>\<open>id,name\n3,c\<close> the file is \<^verbatim>\<open>id,name\n1,a\n2,b\n3,c\<close> and the
  total is 3.
\<close>

theorem text_merge_assembly:
  assumes "link_chain srv (base_url table_name) b ps"
  shows "\<exists>r. download_table_csv srv table_name temp_dir fs = Some r
     \<and> returned r = Some (csv_file_path temp_dir table_name)
     \<and> files r (csv_file_path temp_dir table_name)
         = Some (b @ concat (map later_part (map snd ps)))
     \<and> last (logged r) = (INFO, Downloaded (sum_list (map record_count (b # map snd ps)))
         table_name (csv_file_path temp_dir table_name))"
proof -
  define init where "init = \<lparr>current_url = base_url table_name, page_count = 0,
      total_records = 0, csv_file = [], requests = [],
      logs = [(INFO, StartingDownload table_name)]\<rparr>"
  have "\<exists>st'. csv_loop srv init = Some (Inr st')
     \<and> csv_file st' = csv_file init @ b @ concat (map later_part (map snd ps))
     \<and> total_records st' = total_records init + sum_list (map record_count (b # map snd ps))
     \<and> requests st' = requests init @ current_url init # map fst ps
     \<and> page_count st' = 1 + int (length ps)"
    using assms by (intro csv_loop_first) (simp_all add: init_def base_url_def)
  then obtain st' where "csv_loop srv init = Some (Inr st')"
    and "csv_file st' = b @ concat (map later_part (map snd ps))"
    and "total_records st' = sum_list (map record_count (b # map snd ps))"
    by (auto simp: init_def)
  then show ?thesis
    by (simp add: download_table_csv_def Let_def init_def [symmetric])
qed

theorem text_merge_assembly_witness:
  "link_chain two_pages (base_url ''T'') ''id,name\<newline>1,a\<newline>2,b'' [(cursor_url, ''id,name\<newline>3,c'')]
   \<and> (\<exists>r. download_table_csv two_pages ''T'' ''tmp'' Map.empty = Some r
        \<and> returned r = Some ''tmp/T.csv''
        \<and> files r ''tmp/T.csv'' = Some ''id,name\<newline>1,a\<newline>2,b\<newline>3,c''
        \<and> last (logged r) = (INFO, Downloaded 3 ''T'' ''tmp/T.csv''))"
proof -
  have chain: "link_chain two_pages (base_url ''T'') ''id,name\<newline>1,a\<newline>2,b''
      [(cursor_url, ''id,name\<newline>3,c'')]"
    by (simp add: two_pages_def url_ok_def cursor_url_def base_url_def)
  have l: "later_part ''id,name\<newline>3,c'' = ''\<newline>3,c''"
    by (simp add: later_part_def body_lines_def strip_def is_space_def)
  have c1: "record_count ''id,name\<newline>1,a\<newline>2,b'' = 2"
    by (simp add: record_count_def body_lines_def strip_def is_space_def)
  have c2: "record_count ''id,name\<newline>3,c'' = 1"
    by (simp add: record_count_def body_lines_def strip_def is_space_def)
  have p: "csv_file_path ''tmp'' ''T'' = ''tmp/T.csv''"
    by (simp add: csv_file_path_def path_join_def)
  show ?thesis
    using chain text_merge_assembly [OF chain, of "''tmp''" Map.empty]
    by (simp add: l c1 c2 p)
qed

text \<open>
  C7. In text-merge mode, a pass of the loop that receives a page adds to the total, and
  logs as the page's count, the number of body lines minus one, floored at zero; a page
  after the first whose body is a header line only adds zero records and leaves the file
  as it was.
\<close>

theorem text_merge_record_count:
  assumes "srv (current_url st) = Response content link"
    and "csv_step srv st = Continue st' \<or> csv_step srv st = Break st'"
  shows "total_records st' = total_records st + record_count content
     \<and> (INFO, PageRecords (page_count st + 1) (record_count content)) \<in> set (logs st')
     \<and> record_count content = max 0 (int (length (split_on NL (strip content))) - 1)
     \<and> (1 \<le> page_count st \<and> length (body_lines content) = 1 \<longrightarrow>
          csv_file st' = csv_file st \<and> total_records st' = total_records st)"
proof -
  have hdr: "1 \<le> page_count st \<and> length (body_lines content) = 1 \<longrightarrow>
      fst (csv_page (page_count st + 1) content) = [] \<and> record_count content = 0"
    using csv_page_later [of "page_count st + 1" content]
    by (auto simp: later_part_def record_count_def)
  from assms show ?thesis
    using hdr csv_page_count [of "page_count st + 1" content]
    by (auto simp: csv_step_def Let_def record_count_def body_lines_def
        split: option.splits if_splits)
qed

theorem text_merge_record_count_witness:
  "header_only_srv (current_url header_only_state) = Response ''id,name'' None
   \<and> csv_step header_only_srv header_only_state = Break header_only_done
   \<and> 1 \<le> page_count header_only_state
   \<and> length (body_lines ''id,name'') = 1
   \<and> record_count ''id,name'' = 0
   \<and> csv_file header_only_done = csv_file header_only_state
   \<and> total_records header_only_done = 2"
proof -
  have a: "header_only_srv (current_url header_only_state) = Response ''id,name'' None"
    by (simp add: header_only_srv_def)
  have b: "csv_step header_only_srv header_only_state = Break header_only_done"
    by (simp add: header_only_srv_def header_only_state_def header_only_done_def
        csv_step_def csv_page_def get_next_page_url_def strip_def is_space_def Let_def)
  have c: "length (body_lines ''id,name'') = 1"
    by (simp add: body_lines_def strip_def is_space_def)
  have d: "page_count header_only_state = 1" "total_records header_only_state = 2"
    by (simp_all add: header_only_state_def)
  show ?thesis
    using text_merge_record_count
      [of header_only_srv header_only_state "''id,name''" None header_only_done] a b c d
    by simp
qed



text \<open>
  C9, as amended. A fetch that has returned returns the same again when it is run against
  the same responses. For \<^verbatim>\<open>download_table_csv\<close>: run again on the file system the first run
  left, it gives the same result and the same file; and run against any server that answers
  the requests of the first run alike, from any file system, it gives the same path, file
  contents, requests and log. For \<^verbatim>\<open>fetch_all_ids_from_api\<close>: against any such server the
  result is the same, the list of ids element for element. For
  \<^verbatim>\<open>fetch_prospect_ids_from_activities\<close>: against any such server the set of ids, the
  requests and the log are the same, and any two lists the function can return for it have
  the same members and the same length; their order is not fixed.
\<close>

theorem rerun_gives_same_dataset:
  "(download_table_csv srv table_name temp_dir fs = Some r
      \<and> (\<forall>u \<in> set (sent r). srv' u = srv u) \<longrightarrow>
     download_table_csv srv table_name temp_dir (files r) = Some r
     \<and> (\<exists>r'. download_table_csv srv' table_name temp_dir fs' = Some r'
           \<and> returned r' = returned r
           \<and> files r' (csv_file_path temp_dir table_name)
               = files r (csv_file_path temp_dir table_name)
           \<and> sent r' = sent r \<and> logged r' = logged r))
   \<and> (fetch_all_ids_from_api read_csv esrv table_name n = Some er
        \<and> (\<forall>u \<in> set (e_sent er). esrv' u = esrv u) \<longrightarrow>
       fetch_all_ids_from_api read_csv esrv' table_name n = Some er)
   \<and> (fetch_prospect_ids_from_activities psrv n = Some pr
        \<and> (\<forall>q \<in> set (p_sent pr). psrv' q = psrv q) \<longrightarrow>
       fetch_prospect_ids_from_activities psrv' n = Some pr
       \<and> (\<forall>xs ys. may_return pr xs \<and> may_return pr ys \<longrightarrow>
             set xs = set ys \<and> length xs = length ys))"
proof (intro conjI impI allI)
  assume a: "download_table_csv srv table_name temp_dir fs = Some r
      \<and> (\<forall>u \<in> set (sent r). srv' u = srv u)"
  then show "download_table_csv srv table_name temp_dir (files r) = Some r"
    using download_table_csv_rerun by blast
  from a have "download_table_csv srv' table_name temp_dir fs'
     = Some (r\<lparr>files := fs'(csv_file_path temp_dir table_name
          := files r (csv_file_path temp_dir table_name))\<rparr>)"
    using download_table_csv_replay by blast
  then show "\<exists>r'. download_table_csv srv' table_name temp_dir fs' = Some r'
           \<and> returned r' = returned r
           \<and> files r' (csv_file_path temp_dir table_name)
               = files r (csv_file_path temp_dir table_name)
           \<and> sent r' = sent r \<and> logged r' = logged r"
    by simp
next
  assume "fetch_all_ids_from_api read_csv esrv table_name n = Some er
        \<and> (\<forall>u \<in> set (e_sent er). esrv' u = esrv u)"
  then show "fetch_all_ids_from_api read_csv esrv' table_name n = Some er"
    using fetch_all_ids_replay by blast
next
  assume "fetch_prospect_ids_from_activities psrv n = Some pr
        \<and> (\<forall>q \<in> set (p_sent pr). psrv' q = psrv q)"
  then show "fetch_prospect_ids_from_activities psrv' n = Some pr"
    using fetch_prospect_ids_replay by blast
next
  fix xs ys
  assume "may_return pr xs \<and> may_return pr ys"
  then show "set xs = set ys" using may_return_same by blast
next
  fix xs ys
  assume "may_return pr xs \<and> may_return pr ys"
  then show "length xs = length ys" using may_return_same by blast
qed

text \<open>
  For a page with the prospects \<^verbatim>\<open>a\<close> and \<^verbatim>\<open>b\<close> the prospect-ID fetch can return the list
  \<^verbatim>\<open>a, b\<close> and can return the list \<^verbatim>\<open>b, a\<close>: two runs against the same responses need not
  give the same sequence.
\<close>

theorem prospect_sequence_counterexample:
  "\<exists>r. fetch_prospect_ids_from_activities (one_page two_string_ids) 10000 = Some r
     \<and> may_return r [JStr ''a'', JStr ''b'']
     \<and> may_return r [JStr ''b'', JStr ''a'']
     \<and> [JStr ''a'', JStr ''b''] \<noteq> [JStr ''b'', JStr ''a'']"
  by (auto simp: fetch_prospect_ids_from_activities_def prospect_loop.simps prospect_step_def
      one_page_def two_string_ids_def prospect_activity_def dict_get_def set_add_def
      prospect_next_url_def activities_url_def may_return_def Let_def)

theorem rerun_gives_same_dataset_witness:
  "(\<exists>r. download_table_csv two_pages ''T'' ''tmp'' Map.empty = Some r
      \<and> (\<forall>u \<in> set (sent r). two_pages_elsewhere u = two_pages u)
      \<and> download_table_csv two_pages ''T'' ''tmp'' (files r) = Some r
      \<and> (\<exists>r'. download_table_csv two_pages_elsewhere ''T'' ''tmp'' [''tmp/T.csv'' \<mapsto> ''stale'']
              = Some r'
            \<and> files r' ''tmp/T.csv'' = Some ''id,name\<newline>1,a\<newline>2,b\<newline>3,c''))
   \<and> (\<exists>pr. fetch_prospect_ids_from_activities (one_page mixed_page) 10000 = Some pr
        \<and> (\<forall>q \<in> set (p_sent pr). one_page_elsewhere q = one_page mixed_page q)
        \<and> fetch_prospect_ids_from_activities one_page_elsewhere 10000 = Some pr
        \<and> prospects pr = {JNum 7}
        \<and> may_return pr [JNum 7]
        \<and> (\<forall>xs. may_return pr xs \<longrightarrow> set xs = {JNum 7} \<and> length xs = 1))
   \<and> (\<exists>er. fetch_all_ids_from_api example_read_csv export_two_pages ''DepositTransactions'' 10000
          = Some er
        \<and> (\<forall>u \<in> set (e_sent er). export_two_pages_elsewhere u = export_two_pages u)
        \<and> fetch_all_ids_from_api example_read_csv export_two_pages_elsewhere
             ''DepositTransactions'' 10000 = Some er
        \<and> ids er = [1, 2, 3])"
proof -
  have p: "csv_file_path ''tmp'' ''T'' = ''tmp/T.csv''"
    by (simp add: csv_file_path_def path_join_def)
  have l: "later_part ''id,name\<newline>3,c'' = ''\<newline>3,c''"
    by (simp add: later_part_def body_lines_def strip_def is_space_def)
  from download_table_csv_chain [OF two_pages_chain, of "''tmp''" Map.empty]
  obtain r where r: "download_table_csv two_pages ''T'' ''tmp'' Map.empty = Some r"
    "files r ''tmp/T.csv'' = Some ''id,name\<newline>1,a\<newline>2,b\<newline>3,c''"
    "sent r = [base_url ''T'', cursor_url]"
    by (auto simp: p l)
  have agree: "\<forall>u \<in> set (sent r). two_pages_elsewhere u = two_pages u"
    by (simp add: r(3) two_pages_elsewhere_def base_url_def cursor_url_def)
  have csv: "download_table_csv two_pages ''T'' ''tmp'' (files r) = Some r
      \<and> (\<exists>r'. download_table_csv two_pages_elsewhere ''T'' ''tmp'' [''tmp/T.csv'' \<mapsto> ''stale'']
              = Some r'
            \<and> files r' ''tmp/T.csv'' = Some ''id,name\<newline>1,a\<newline>2,b\<newline>3,c'')"
    using rerun_gives_same_dataset [where srv = two_pages and srv' = two_pages_elsewhere
        and table_name = "''T''" and temp_dir = "''tmp''" and fs = Map.empty and r = r
        and fs' = "[''tmp/T.csv'' \<mapsto> ''stale'']", THEN conjunct1] r(1,2) agree
    by (auto simp: p)
  have "\<exists>pr. fetch_prospect_ids_from_activities (one_page mixed_page) 10000 = Some pr
        \<and> prospects pr = {JNum 7} \<and> p_sent pr = [(activities_url, Some 10000)]"
    by (simp add: fetch_prospect_ids_from_activities_def prospect_loop.simps prospect_step_def
        one_page_def mixed_page_def prospect_activity_def dict_get_def set_add_def
        prospect_next_url_def activities_url_def Let_def)
  then obtain pr where pr: "fetch_prospect_ids_from_activities (one_page mixed_page) 10000 = Some pr"
    "prospects pr = {JNum 7}" "p_sent pr = [(activities_url, Some 10000)]"
    by blast
  have pagree: "\<forall>q \<in> set (p_sent pr). one_page_elsewhere q = one_page mixed_page q"
    by (simp add: pr(3) one_page_elsewhere_def activities_url_def)
  note p3 = rerun_gives_same_dataset [where psrv = "one_page mixed_page"
        and psrv' = one_page_elsewhere and n = 10000 and pr = pr,
        THEN conjunct2, THEN conjunct2]
  have prospect: "fetch_prospect_ids_from_activities one_page_elsewhere 10000 = Some pr"
    using p3 pr(1) pagree by blast
  have m: "may_return pr [JNum 7]"
    by (simp add: may_return_def pr(2))
  have same: "\<forall>xs ys. may_return pr xs \<and> may_return pr ys \<longrightarrow>
      set xs = set ys \<and> length xs = length ys"
    using p3 pr(1) pagree by blast
  have lists: "\<forall>xs. may_return pr xs \<longrightarrow> set xs = {JNum 7} \<and> length xs = 1"
  proof (intro allI impI)
    fix xs assume "may_return pr xs"
    with same m have "set xs = set [JNum 7] \<and> length xs = length [JNum 7]" by blast
    then show "set xs = {JNum 7} \<and> length xs = 1" by simp
  qed
  have ok: "\<forall>body \<in> set (''other_id\<newline>1\<newline>2'' # map snd [(cursor_url, ''other_id\<newline>3'')]).
         page_ok example_read_csv ''DepositTransactions'' body"
    using example_page_ok by simp
  from fetch_all_ids_chain [OF export_two_pages_chain ok]
  obtain er where er: "fetch_all_ids_from_api example_read_csv export_two_pages
          ''DepositTransactions'' 10000 = Some er" "ids er = [1, 2, 3]"
    "e_sent er = [export_url ''DepositTransactions'' 10000, cursor_url]"
    by (auto simp: example_page_values)
  have eagree: "\<forall>u \<in> set (e_sent er). export_two_pages_elsewhere u = export_two_pages u"
    by (simp add: er(3) export_two_pages_elsewhere_def export_url_def export_base_url_def
        cursor_url_def)
  have export: "fetch_all_ids_from_api example_read_csv export_two_pages_elsewhere
             ''DepositTransactions'' 10000 = Some er"
    using rerun_gives_same_dataset [where read_csv = example_read_csv
        and esrv = export_two_pages and esrv' = export_two_pages_elsewhere
        and table_name = "''DepositTransactions''" and n = 10000 and er = er,
        THEN conjunct2, THEN conjunct1] er(1) eagree
    by blast
  show ?thesis
    using r(1) agree csv pr(1,2) pagree prospect m lists er(1,2) eagree export by blast
qed

text \<open>
  C10. Every id in the result of the prospect-ID fetch is the truthy record id of an
  activity of record type \<^verbatim>\<open>Prospect\<close> on a page of the server; 0 and \<^verbatim>\<open>None\<close> are never in
  the result. An activity of another record type, or whose record id is not truthy (0,
  \<^verbatim>\<open>None\<close>, or missing, which \<^verbatim>\<open>get\<close> reads as \<^verbatim>\<open>None\<close>), is passed over.
\<close>

theorem prospect_ids_only_truthy_prospects:
  "(fetch_prospect_ids_from_activities srv n = Some r \<longrightarrow>
      (\<forall>x \<in> prospects r. contributed srv x \<and> truthy x)
      \<and> JNum 0 \<notin> prospects r \<and> JNull \<notin> prospects r)
   \<and> (dict_get activity ''record_type'' \<noteq> JStr ''Prospect''
        \<or> \<not> truthy (dict_get activity ''record_id'') \<longrightarrow>
       collect (JObj activity # rest) S = collect rest S)
   \<and> \<not> truthy (JNum 0) \<and> \<not> truthy JNull
   \<and> dict_get [(''record_type'', JStr ''Prospect'')] ''record_id'' = JNull"
proof -
  have "fetch_prospect_ids_from_activities srv n = Some r \<longrightarrow>
      (\<forall>x \<in> prospects r. contributed srv x \<and> truthy x)
      \<and> JNum 0 \<notin> prospects r \<and> JNull \<notin> prospects r"
  proof
    assume "fetch_prospect_ids_from_activities srv n = Some r"
    then have all: "\<forall>x \<in> prospects r. contributed srv x \<and> truthy x"
      using fetch_prospect_ids_sound contributed_truthy by blast
    then have "JNum 0 \<notin> prospects r" "JNull \<notin> prospects r" by fastforce+
    with all show "(\<forall>x \<in> prospects r. contributed srv x \<and> truthy x)
      \<and> JNum 0 \<notin> prospects r \<and> JNull \<notin> prospects r" by blast
  qed
  then show ?thesis
    using collect_skip [of activity rest S] by (simp add: dict_get_def)
qed

theorem prospect_ids_only_truthy_prospects_witness:
  "(\<exists>r. fetch_prospect_ids_from_activities (one_page mixed_page) 10000 = Some r
      \<and> prospects r = {JNum 7} \<and> contributed (one_page mixed_page) (JNum 7))
   \<and> \<not> truthy (dict_get [(''record_type'', JStr ''Prospect''), (''record_id'', JNum 0)] ''record_id'')
   \<and> collect [prospect_activity (JNum 0), prospect_activity (JNum 7)] {} = ({JNum 7}, True)
   \<and> dict_get [(''record_type'', JStr ''Resident''), (''record_id'', JNum 9)] ''record_type''
        \<noteq> JStr ''Prospect''
   \<and> collect [JObj [(''record_type'', JStr ''Resident''), (''record_id'', JNum 9)]] {} = ({}, True)"
proof -
  have run: "\<exists>r. fetch_prospect_ids_from_activities (one_page mixed_page) 10000 = Some r
      \<and> prospects r = {JNum 7}"
    by (simp add: fetch_prospect_ids_from_activities_def prospect_loop.simps prospect_step_def
        one_page_def mixed_page_def prospect_activity_def dict_get_def set_add_def
        prospect_next_url_def activities_url_def Let_def)
  then obtain r where r: "fetch_prospect_ids_from_activities (one_page mixed_page) 10000 = Some r"
    "prospects r = {JNum 7}" by blast
  have c: "contributed (one_page mixed_page) (JNum 7)"
    using prospect_ids_only_truthy_prospects [where srv = "one_page mixed_page" and n = 10000
        and r = r, THEN conjunct1] r
    by simp
  have z: "\<not> truthy (dict_get [(''record_type'', JStr ''Prospect''), (''record_id'', JNum 0)] ''record_id'')"
    by (simp add: dict_get_def)
  have s1: "collect [prospect_activity (JNum 0), prospect_activity (JNum 7)] {}
      = collect [prospect_activity (JNum 7)] {}"
    unfolding prospect_activity_def
    using prospect_ids_only_truthy_prospects
      [where activity = "[(''record_type'', JStr ''Prospect''), (''record_id'', JNum 0)]"
        and rest = "[JObj [(''record_type'', JStr ''Prospect''), (''record_id'', JNum 7)]]"
        and S = "{}", THEN conjunct2, THEN conjunct1] z
    by blast
  have s2: "collect [prospect_activity (JNum 7)] {} = ({JNum 7}, True)"
    by (simp add: prospect_activity_def dict_get_def set_add_def)
  have t: "dict_get [(''record_type'', JStr ''Resident''), (''record_id'', JNum 9)] ''record_type''
        \<noteq> JStr ''Prospect''"
    by (simp add: dict_get_def)
  have s3: "collect [JObj [(''record_type'', JStr ''Resident''), (''record_id'', JNum 9)]] {}
      = ({}, True)"
    by (simp add: dict_get_def)
  show ?thesis
    using r c z s1 s2 t s3 by auto
qed

end
